theory Spec2Isabelle
  imports Main "HOL-Library.AList" "HOL-Library.Sublist"
begin

section \<open>The Self object model of SelfObject.js and of its unnamed variant\<close>

text \<open>
  The repository holds three bodies of the class \<open>SelfObject\<close>: two revisions one after
  the other in \<open>src/SelfObject.js\<close> (lines 6-139 and lines 165-306), which differ only in
  how \<open>evaluate\<close> calls the primitive function, and a third in \<open>src/unnamed/part_000\<close>,
  whose \<open>evaluate\<close>, \<open>sendAMessage\<close> and \<open>sendAMessageWithParameters\<close> are written
  differently. \<open>copy\<close>, \<open>assignSlot\<close>, \<open>makeParent\<close> and \<open>assignParentSlot\<close> are the same
  text in all three.

  Objects live in a store: a list of object records addressed by position, so that
  reference identity, sharing and cycles of the JavaScript object graph are kept. Allocation
  appends a record; the new reference is the old length of the store.
\<close>

subsection \<open>Values and objects\<close>

text \<open>
  A slot may hold any JavaScript value (\<open>assignSlot\<close> checks nothing), and the code tests
  slots by truthiness, so the values that are not objects are modelled as well. Numbers are
  modelled as integers. The values a caller hands to the methods are the primitive values
  and references to SelfObjects.

  \<open>VHost\<close> stands for what a lookup \<open>slots[name]\<close> finds in \<open>Object.prototype\<close> when
  \<open>slots\<close> has no property \<open>name\<close> of its own: one of the functions every plain object
  inherits (\<open>toString\<close>, \<open>constructor\<close>, ...) or, under \<open>__proto__\<close>,
  \<open>Object.prototype\<close> itself. Such a value is truthy and is no SelfObject; it has no
  property \<open>slots\<close>, \<open>evaluate\<close>, \<open>copy\<close>, \<open>sendAMessage\<close> or
  \<open>sendAMessageWithParameters\<close>, so every use of it as a receiver is a TypeError.
\<close>

datatype val =
    VUndefined
  | VNull
  | VBool bool
  | VNum int
  | VStr string
  | VRef nat
  | VHost

fun truthy :: "val \<Rightarrow> bool" where
  "truthy VUndefined = False"
| "truthy VNull = False"
| "truthy (VBool b) = b"
| "truthy (VNum n) = (n \<noteq> 0)"
| "truthy (VStr s) = (s \<noteq> [])"
| "truthy (VRef r) = True"
| "truthy VHost = True"

subsection \<open>Properties of the plain object behind \<open>slots\<close>\<close>

text \<open>
  \<open>this.slots = {}\<close> is a plain JavaScript object: it has its own properties, an
  association list here (only the bindings matter, the order of the list plays no role),
  and a prototype, which is \<open>Object.prototype\<close> for \<open>{}\<close> and for the result of a
  spread \<open>{ ...x }\<close>. The names below are the properties of \<open>Object.prototype\<close>; all of
  them are found, with a truthy value, by a lookup in a plain object that has no property of
  that name itself.
\<close>

datatype proto = ObjectProto | NullProto

definition object_prototype_names :: "string list" where
  "object_prototype_names =
     [''constructor'', ''__defineGetter__'', ''__defineSetter__'', ''hasOwnProperty'',
      ''__lookupGetter__'', ''__lookupSetter__'', ''isPrototypeOf'', ''propertyIsEnumerable'',
      ''toString'', ''valueOf'', ''__proto__'', ''toLocaleString'']"

text \<open>\<open>x[name]\<close> for a plain object \<open>x\<close> with the own properties \<open>props\<close> and the
  prototype \<open>pr\<close>: the own binding, else what the prototype provides, else \<open>undefined\<close>.\<close>

definition property_get :: "(string \<times> val) list \<Rightarrow> proto \<Rightarrow> string \<Rightarrow> val" where
  "property_get props pr name =
     (case map_of props name of
        Some v \<Rightarrow> v
      | None \<Rightarrow> if pr = ObjectProto \<and> name \<in> set object_prototype_names then VHost else VUndefined)"

text \<open>
  \<open>x[name] = v\<close>. For every name but \<open>__proto__\<close> the assignment binds the own property
  \<open>name\<close> (the inherited properties are writable data properties, they are shadowed). The
  property \<open>__proto__\<close> of \<open>Object.prototype\<close> is an accessor: while \<open>x\<close> inherits it and
  has no own property of that name, the assignment binds nothing; it is ignored for a value
  that is neither an object nor \<open>null\<close>, and it makes \<open>null\<close> the prototype of \<open>x\<close> when
  the value is \<open>null\<close> (from then on \<open>x\<close> inherits nothing, and \<open>__proto__\<close> is a name
  like any other). When the value is an object, that object becomes the prototype of \<open>x\<close> and
  its fields and methods show through as slots; this is where the model ends: \<open>None\<close>.
\<close>

definition property_set ::
  "(string \<times> val) list \<Rightarrow> proto \<Rightarrow> string \<Rightarrow> val \<Rightarrow> ((string \<times> val) list \<times> proto) option" where
  "property_set props pr name v =
     (if name = ''__proto__'' \<and> map_of props name = None \<and> pr = ObjectProto then
        (case v of
           VNull \<Rightarrow> Some (props, NullProto)
         | VRef s \<Rightarrow> None
         | VHost \<Rightarrow> None
         | _ \<Rightarrow> Some (props, pr))
      else Some (AList.update name v props, pr))"

subsection \<open>Objects, with the content of their containers\<close>

text \<open>
  The fields of the constructor. \<open>slots\<close> and \<open>slots_proto\<close> are the own properties and
  the prototype of the plain object in \<open>this.slots\<close>. \<open>parents\<close> is the content of a
  \<open>Set\<close> of names: a duplicate-free list in insertion order. \<open>messages\<close> is the content of
  an array. \<open>primitive\<close> is \<open>VNull\<close> when absent; \<open>primitiveFn\<close> is \<open>None\<close> for \<open>null\<close>
  and otherwise the index of a native function in a table passed to the evaluator.

  In this record an object carries the content of its three containers. \<open>evaluate\<close> and the
  dispatch methods only read the containers of the objects that exist, and they build new
  containers through \<open>copy\<close> alone, so they are modelled on stores of such records. That
  \<open>copy\<close> gives the new object containers of its own is a statement about the identity of
  containers; the section on the memory below models the containers as cells of their own
  and relates the two.
\<close>

record self_object =
  slots :: "(string \<times> val) list"
  slots_proto :: proto
  parents :: "string list"
  messages :: "string list"
  primitive :: val
  primitiveFn :: "nat option"

type_synonym heap = "self_object list"

datatype error =
    MessageNotFound string
  | TypeError

text \<open>
  A native function receives the store, its first argument and its second argument
  (\<open>VUndefined\<close> when the caller passes none). It either throws or returns a value; in both
  cases it hands back the objects it has newly created, which are appended to the store. It
  cannot change an object that exists already (the repository's only native function,
  \<open>addOne\<close> of part_000, creates one fresh object and changes nothing).
\<close>

type_synonym native =
  "heap \<Rightarrow> val \<Rightarrow> val \<Rightarrow> (error \<times> self_object list) + (val \<times> self_object list)"

text \<open>
  What a method call leaves behind: \<open>None\<close> when the fuel ran out, \<open>Some (Inl (e, h))\<close> when
  it threw \<open>e\<close>, \<open>Some (Inr (v, h))\<close> when it returned \<open>v\<close>; \<open>h\<close> is the store afterwards
  (the objects allocated before a throw stay allocated).
\<close>

type_synonym outcome = "((error \<times> heap) + (val \<times> heap)) option"

fun heap_of :: "(error \<times> heap) + (val \<times> heap) \<Rightarrow> heap" where
  "heap_of (Inl (e, h)) = h"
| "heap_of (Inr (v, h)) = h"

definition new_object :: self_object where
  "new_object = \<lparr>slots = [], slots_proto = ObjectProto, parents = [], messages = [],
                 primitive = VNull, primitiveFn = None\<rparr>"

definition deref :: "heap \<Rightarrow> val \<Rightarrow> self_object option" where
  "deref h v = (case v of VRef r \<Rightarrow> (if r < length h then Some (h ! r) else None) | _ \<Rightarrow> None)"

text \<open>\<open>o.slots[name]\<close>.\<close>

definition slot_get :: "self_object \<Rightarrow> string \<Rightarrow> val" where
  "slot_get ob name = property_get (slots ob) (slots_proto ob) name"

definition alloc :: "heap \<Rightarrow> self_object \<Rightarrow> nat \<times> heap" where
  "alloc h ob = (length h, h @ [ob])"

subsection \<open>copy, assignSlot, makeParent, assignParentSlot (the same in all three bodies)\<close>

text \<open>
  \<open>copy\<close>: the spread \<open>{ ...this.slots }\<close> makes a plain object with the own properties of
  \<open>this.slots\<close> and the prototype \<open>Object.prototype\<close>, whatever the prototype of
  \<open>this.slots\<close> is.
\<close>

definition copy_fields :: "self_object \<Rightarrow> self_object" where
  "copy_fields this =
     \<lparr>slots = slots this, slots_proto = ObjectProto, parents = parents this,
      messages = messages this, primitive = primitive this, primitiveFn = primitiveFn this\<rparr>"

definition copy :: "heap \<Rightarrow> self_object \<Rightarrow> nat \<times> heap" where
  "copy h this = alloc h (copy_fields this)"

text \<open>
  \<open>o.slots[name] = v\<close> on the record of \<open>o\<close>: \<open>put_slot\<close> binds the own property,
  \<open>set_slot\<close> is the assignment for any name.
\<close>

definition put_slot :: "self_object \<Rightarrow> string \<Rightarrow> val \<Rightarrow> self_object" where
  "put_slot ob name v = ob\<lparr>slots := AList.update name v (slots ob)\<rparr>"

definition set_slot :: "self_object \<Rightarrow> string \<Rightarrow> val \<Rightarrow> self_object option" where
  "set_slot ob name v =
     (case property_set (slots ob) (slots_proto ob) name v of
        None \<Rightarrow> None
      | Some (props, pr) \<Rightarrow> Some (ob\<lparr>slots := props, slots_proto := pr\<rparr>))"

text \<open>
  The mutators take the receiver's reference. A reference outside the store denotes no
  object (JavaScript has no such value); the store is then returned as it is.
\<close>

definition assignSlot :: "heap \<Rightarrow> nat \<Rightarrow> string \<Rightarrow> val \<Rightarrow> heap option" where
  "assignSlot h r name v =
     (if r < length h then
        (case set_slot (h ! r) name v of None \<Rightarrow> None | Some ob \<Rightarrow> Some (h[r := ob]))
      else Some h)"

text \<open>\<open>Set.add\<close> on a list without duplicates in insertion order.\<close>

definition set_add :: "'a \<Rightarrow> 'a list \<Rightarrow> 'a list" where
  "set_add x xs = (if x \<in> set xs then xs else xs @ [x])"

definition makeParent :: "heap \<Rightarrow> nat \<Rightarrow> string \<Rightarrow> heap" where
  "makeParent h r name =
     (if r < length h then
        (if truthy (slot_get (h ! r) name)
         then h[r := (h ! r)\<lparr>parents := set_add name (parents (h ! r))\<rparr>]
         else h)
      else h)"

definition assignParentSlot :: "heap \<Rightarrow> nat \<Rightarrow> string \<Rightarrow> val \<Rightarrow> heap option" where
  "assignParentSlot h r name v =
     (case assignSlot h r name v of None \<Rightarrow> None | Some h' \<Rightarrow> Some (makeParent h' r name))"

text \<open>\<open>obj.messages.push(m)\<close>, as the example drivers build message chains.\<close>

definition push_message :: "heap \<Rightarrow> nat \<Rightarrow> string \<Rightarrow> heap" where
  "push_message h r m =
     (if r < length h then h[r := (h ! r)\<lparr>messages := messages (h ! r) @ [m]\<rparr>] else h)"

subsection \<open>The memory: containers as cells of their own\<close>

text \<open>
  In JavaScript the fields \<open>slots\<close>, \<open>parents\<close> and \<open>messages\<close> of a SelfObject hold
  references: to a plain object, to a \<open>Set\<close> and to an array. Two SelfObjects that held the
  same container would see each other's changes. The memory keeps the SelfObjects and the
  three kinds of containers in lists of their own, addressed by position; a SelfObject
  holds the addresses of its containers. \<open>view\<close> reads a memory as a store of records.
\<close>

record self_instance =
  slots_ref :: nat
  parents_ref :: nat
  messages_ref :: nat
  primitive_val :: val
  primitiveFn_val :: "nat option"

record plain_object =
  properties :: "(string \<times> val) list"
  prototype :: proto

record memory =
  instances :: "self_instance list"
  plain_objects :: "plain_object list"
  set_objects :: "string list list"
  array_objects :: "string list list"

definition empty_memory :: memory where
  "empty_memory = \<lparr>instances = [], plain_objects = [], set_objects = [], array_objects = []\<rparr>"

definition view_instance :: "memory \<Rightarrow> self_instance \<Rightarrow> self_object" where
  "view_instance m i =
     \<lparr>slots = properties (plain_objects m ! slots_ref i),
      slots_proto = prototype (plain_objects m ! slots_ref i),
      parents = set_objects m ! parents_ref i,
      messages = array_objects m ! messages_ref i,
      primitive = primitive_val i,
      primitiveFn = primitiveFn_val i\<rparr>"

definition view :: "memory \<Rightarrow> heap" where
  "view m = map (view_instance m) (instances m)"

text \<open>The allocations: \<open>{}\<close> or \<open>{ ...x }\<close>, \<open>new Set(...)\<close>, an array literal, and the
  assignment of a field of a SelfObject.\<close>

definition new_plain_object :: "(string \<times> val) list \<Rightarrow> memory \<Rightarrow> nat \<times> memory" where
  "new_plain_object props m =
     (length (plain_objects m),
      m\<lparr>plain_objects := plain_objects m @ [\<lparr>properties = props, prototype = ObjectProto\<rparr>]\<rparr>)"

definition new_set :: "string list \<Rightarrow> memory \<Rightarrow> nat \<times> memory" where
  "new_set names m = (length (set_objects m), m\<lparr>set_objects := set_objects m @ [names]\<rparr>)"

definition new_array :: "string list \<Rightarrow> memory \<Rightarrow> nat \<times> memory" where
  "new_array msgs m = (length (array_objects m), m\<lparr>array_objects := array_objects m @ [msgs]\<rparr>)"

definition update_instance :: "nat \<Rightarrow> (self_instance \<Rightarrow> self_instance) \<Rightarrow> memory \<Rightarrow> memory" where
  "update_instance r f m = m\<lparr>instances := (instances m)[r := f (instances m ! r)]\<rparr>"

text \<open>The constructor \<open>new SelfObject()\<close>: three new, empty containers and a new object
  that holds them.\<close>

definition construct :: "memory \<Rightarrow> nat \<times> memory" where
  "construct m =
     (case new_plain_object [] m of (s, m1) \<Rightarrow>
      (case new_set [] m1 of (p, m2) \<Rightarrow>
       (case new_array [] m2 of (a, m3) \<Rightarrow>
          (length (instances m3),
           m3\<lparr>instances := instances m3 @
                [\<lparr>slots_ref = s, parents_ref = p, messages_ref = a,
                  primitive_val = VNull, primitiveFn_val = None\<rparr>]\<rparr>))))"

text \<open>
  \<open>copy\<close>, line by line: the constructor, then a new plain object with the own properties
  of \<open>this.slots\<close>, a new \<open>Set\<close> with the members of \<open>this.parents\<close>, a new array with the
  elements of \<open>this.messages\<close>, each assigned to the field of the new object (the containers
  the constructor made are dropped), then the two other fields. A reference outside the
  memory denotes no object; the memory is then returned as it is.
\<close>

definition copy_m :: "memory \<Rightarrow> nat \<Rightarrow> nat \<times> memory" where
  "copy_m m r =
     (if r < length (instances m) then
        (case construct m of (newObj, m0) \<Rightarrow>
         (case new_plain_object (properties (plain_objects m0 ! slots_ref (instances m0 ! r))) m0
          of (s, m1) \<Rightarrow>
          (case new_set (set_objects m1 ! parents_ref (instances m1 ! r))
                  (update_instance newObj (\<lambda>i. i\<lparr>slots_ref := s\<rparr>) m1)
           of (p, m2) \<Rightarrow>
           (case new_array (array_objects m2 ! messages_ref (instances m2 ! r))
                   (update_instance newObj (\<lambda>i. i\<lparr>parents_ref := p\<rparr>) m2)
            of (a, m3) \<Rightarrow>
              (newObj,
               update_instance newObj (\<lambda>i. i\<lparr>primitiveFn_val := primitiveFn_val (instances m3 ! r)\<rparr>)
                 (update_instance newObj (\<lambda>i. i\<lparr>primitive_val := primitive_val (instances m3 ! r)\<rparr>)
                    (update_instance newObj (\<lambda>i. i\<lparr>messages_ref := a\<rparr>) m3)))))))
      else (r, m))"

text \<open>\<open>assignSlot\<close>, \<open>makeParent\<close>, \<open>assignParentSlot\<close> and \<open>messages.push\<close> on the
  memory: each changes the one container it reaches through the receiver's field.\<close>

definition assignSlot_m :: "memory \<Rightarrow> nat \<Rightarrow> string \<Rightarrow> val \<Rightarrow> memory option" where
  "assignSlot_m m r name v =
     (if r < length (instances m) then
        (case property_set (properties (plain_objects m ! slots_ref (instances m ! r)))
                (prototype (plain_objects m ! slots_ref (instances m ! r))) name v of
           None \<Rightarrow> None
         | Some (props, pr) \<Rightarrow>
             Some (m\<lparr>plain_objects := (plain_objects m)
                        [slots_ref (instances m ! r) := \<lparr>properties = props, prototype = pr\<rparr>]\<rparr>))
      else Some m)"

definition makeParent_m :: "memory \<Rightarrow> nat \<Rightarrow> string \<Rightarrow> memory" where
  "makeParent_m m r name =
     (if r < length (instances m) then
        (if truthy (property_get (properties (plain_objects m ! slots_ref (instances m ! r)))
                      (prototype (plain_objects m ! slots_ref (instances m ! r))) name)
         then m\<lparr>set_objects := (set_objects m)
                   [parents_ref (instances m ! r) :=
                      set_add name (set_objects m ! parents_ref (instances m ! r))]\<rparr>
         else m)
      else m)"

definition assignParentSlot_m :: "memory \<Rightarrow> nat \<Rightarrow> string \<Rightarrow> val \<Rightarrow> memory option" where
  "assignParentSlot_m m r name v =
     (case assignSlot_m m r name v of None \<Rightarrow> None | Some m' \<Rightarrow> Some (makeParent_m m' r name))"

definition push_message_m :: "memory \<Rightarrow> nat \<Rightarrow> string \<Rightarrow> memory" where
  "push_message_m m r msg =
     (if r < length (instances m) then
        m\<lparr>array_objects := (array_objects m)
             [messages_ref (instances m ! r) := array_objects m ! messages_ref (instances m ! r) @ [msg]]\<rparr>
      else m)"

text \<open>
  \<open>well_addressed\<close>: every field of every SelfObject holds the address of a container that
  exists. \<open>separate\<close>: moreover no container is held by two SelfObjects. \<open>aliasing_copy\<close>
  is what \<open>copy\<close> is not: a new object that holds the containers of the receiver.
\<close>

definition well_addressed :: "memory \<Rightarrow> bool" where
  "well_addressed m =
     list_all (\<lambda>i. slots_ref i < length (plain_objects m) \<and> parents_ref i < length (set_objects m)
                 \<and> messages_ref i < length (array_objects m)) (instances m)"

definition separate :: "memory \<Rightarrow> bool" where
  "separate m \<longleftrightarrow>
     well_addressed m \<and> distinct (map slots_ref (instances m))
     \<and> distinct (map parents_ref (instances m)) \<and> distinct (map messages_ref (instances m))"

definition aliasing_copy :: "memory \<Rightarrow> nat \<Rightarrow> nat \<times> memory" where
  "aliasing_copy m r = (length (instances m), m\<lparr>instances := instances m @ [instances m ! r]\<rparr>)"

subsection \<open>The breadth-first parent search of SelfObject.js\<close>

text \<open>
  The \<open>while\<close> loop of \<open>sendAMessage\<close> and \<open>sendAMessageWithParameters\<close> (the same text in
  both, and in both revisions). It reads the store and changes nothing, and it leaves
  through \<open>return current.slots[name]...\<close> at the first hit, so it is modelled as the search
  for that slot value: \<open>Inr (Some v, visited)\<close> at a hit, \<open>Inr (None, visited)\<close> when the
  queue runs empty, \<open>Inl TypeError\<close> when a queued value is truthy but no object
  (\<open>current.slots\<close> is then \<open>undefined\<close>). \<open>visited\<close> is the \<open>Set\<close> of the loop, in
  insertion order.
\<close>

definition unvisited :: "heap \<Rightarrow> val list \<Rightarrow> nat" where
  "unvisited h visited = card (VRef ` {..<length h} - set visited)"

function bfs :: "heap \<Rightarrow> string \<Rightarrow> val list \<Rightarrow> val list \<Rightarrow> error + (val option \<times> val list)" where
  "bfs h name visited [] = Inr (None, visited)"
| "bfs h name visited (current # queue) =
     (if \<not> truthy current \<or> current \<in> set visited then bfs h name visited queue
      else
        (case deref h current of
           None \<Rightarrow> Inl TypeError
         | Some ob \<Rightarrow>
             if truthy (slot_get ob name)
             then Inr (Some (slot_get ob name), set_add current visited)
             else bfs h name (set_add current visited)
                    (queue @ map (slot_get ob) (parents ob))))"
  by pat_completeness auto

lemma deref_Some_iff: "deref h v = Some ob \<longleftrightarrow> (\<exists>r. v = VRef r \<and> r < length h \<and> ob = h ! r)"
  by (auto simp: deref_def split: val.splits)

lemma unvisited_less:
  "deref h v = Some ob \<Longrightarrow> v \<notin> set visited \<Longrightarrow> unvisited h (set_add v visited) < unvisited h visited"
  unfolding unvisited_def set_add_def
  by (auto simp: deref_Some_iff intro!: psubset_card_mono)

termination bfs
  by (relation "inv_image (less_than <*lex*> less_than)
        (\<lambda>(h, name, visited, queue). (unvisited h visited, length queue))")
     (auto simp: unvisited_less)

subsection \<open>evaluate and sendAMessage of SelfObject.js\<close>

text \<open>
  The two revisions of SelfObject.js differ in one call: the first (line 27) calls
  \<open>this.primitiveFn(this, this.slots['parameter'])\<close>, the second (line 184) calls
  \<open>this.primitiveFn(this)\<close>. The revision is a parameter of the model.
\<close>

datatype revision = Rev1 | Rev2

definition call_native ::
  "(nat \<Rightarrow> native) \<Rightarrow> nat \<Rightarrow> heap \<Rightarrow> val \<Rightarrow> val \<Rightarrow> outcome" where
  "call_native natives f h self arg =
     (case natives f h self arg of
        Inl (e, fresh) \<Rightarrow> Some (Inl (e, h @ fresh))
      | Inr (v, fresh) \<Rightarrow> Some (Inr (v, h @ fresh)))"

text \<open>
  \<open>evaluate\<close> and \<open>sendAMessage\<close> call each other, and an object graph can make them
  recurse for ever (an object whose message names a slot that holds the object itself), so
  \<open>evaluate\<close> takes fuel, the depth of nested \<open>evaluate\<close> calls it may use: \<open>None\<close> is
  "no result within this depth". The bodies of the methods are written once, with the
  method they call as their first argument: \<open>send\<close> stands for \<open>sendAMessage\<close> and
  \<open>ev\<close> for \<open>evaluate\<close>. \<open>chain\<close> is the \<open>for\<close> loop of \<open>evaluate\<close>, with \<open>currentObj\<close>
  and \<open>result\<close> as its arguments. A receiver that is no object has no method to call:
  \<open>TypeError\<close>.
\<close>

fun chain ::
  "(heap \<Rightarrow> val \<Rightarrow> string \<Rightarrow> outcome) \<Rightarrow> heap \<Rightarrow> val \<Rightarrow> val \<Rightarrow> string list \<Rightarrow> outcome" where
  "chain send h currentObj result [] = Some (Inr (result, h))"
| "chain send h currentObj result (msg # msgs) =
     (case send h currentObj msg of
        None \<Rightarrow> None
      | Some (Inl e) \<Rightarrow> Some (Inl e)
      | Some (Inr (res, h')) \<Rightarrow>
          if truthy res then chain send h' res res msgs
          else Some (Inl (MessageNotFound msg, h')))"

definition evaluate_body ::
  "(heap \<Rightarrow> val \<Rightarrow> string \<Rightarrow> outcome) \<Rightarrow> revision \<Rightarrow> (nat \<Rightarrow> native) \<Rightarrow> heap \<Rightarrow> val \<Rightarrow> outcome" where
  "evaluate_body send rv natives h this =
     (case deref h this of
        None \<Rightarrow> Some (Inl (TypeError, h))
      | Some ob \<Rightarrow>
          if primitive ob \<noteq> VNull then
            (case copy h ob of (c, h') \<Rightarrow> Some (Inr (VRef c, h')))
          else
            (case primitiveFn ob of
               Some f \<Rightarrow>
                 call_native natives f h this
                   (case rv of Rev1 \<Rightarrow> slot_get ob ''parameter'' | Rev2 \<Rightarrow> VUndefined)
             | None \<Rightarrow>
                 if messages ob \<noteq> [] then
                   (case copy h ob of (c, h') \<Rightarrow> chain send h' (VRef c) VNull (messages ob))
                 else Some (Inr (this, h))))"

definition sendAMessage_body ::
  "(heap \<Rightarrow> val \<Rightarrow> outcome) \<Rightarrow> heap \<Rightarrow> val \<Rightarrow> string \<Rightarrow> outcome" where
  "sendAMessage_body ev h this name =
     (case deref h this of
        None \<Rightarrow> Some (Inl (TypeError, h))
      | Some ob \<Rightarrow>
          if truthy (slot_get ob name) then ev h (slot_get ob name)
          else
            (case bfs h name [] (map (slot_get ob) (parents ob)) of
               Inl e \<Rightarrow> Some (Inl (e, h))
             | Inr (Some v, visited) \<Rightarrow> ev h v
             | Inr (None, visited) \<Rightarrow> Some (Inr (VNull, h))))"

primrec evaluate :: "nat \<Rightarrow> revision \<Rightarrow> (nat \<Rightarrow> native) \<Rightarrow> heap \<Rightarrow> val \<Rightarrow> outcome" where
  "evaluate 0 rv natives = (\<lambda>h this. None)"
| "evaluate (Suc n) rv natives =
     evaluate_body (sendAMessage_body (evaluate n rv natives)) rv natives"

definition sendAMessage ::
  "nat \<Rightarrow> revision \<Rightarrow> (nat \<Rightarrow> native) \<Rightarrow> heap \<Rightarrow> val \<Rightarrow> string \<Rightarrow> outcome" where
  "sendAMessage n rv natives = sendAMessage_body (evaluate n rv natives)"

text \<open>
  \<open>sendAMessageWithParameters\<close> of SelfObject.js: the same search; at a hit the slot's
  object is copied, the copy's \<open>parameter\<close> slot is set, and the copy is evaluated.
  (\<open>parameter\<close> is no property of \<open>Object.prototype\<close>: the assignment
  \<open>target.slots["parameter"] = paramObj\<close> binds the copy's own property.)
\<close>

definition bind_parameter ::
  "(heap \<Rightarrow> val \<Rightarrow> outcome) \<Rightarrow> heap \<Rightarrow> val \<Rightarrow> val \<Rightarrow> outcome" where
  "bind_parameter ev h slot paramObj =
     (case deref h slot of
        None \<Rightarrow> Some (Inl (TypeError, h))
      | Some ob \<Rightarrow>
          (case copy h ob of (target, h') \<Rightarrow>
             ev (h'[target := put_slot (h' ! target) ''parameter'' paramObj]) (VRef target)))"

definition sendAMessageWithParameters ::
  "nat \<Rightarrow> revision \<Rightarrow> (nat \<Rightarrow> native) \<Rightarrow> heap \<Rightarrow> val \<Rightarrow> string \<Rightarrow> val \<Rightarrow> outcome" where
  "sendAMessageWithParameters n rv natives h this name paramObj =
     (case deref h this of
        None \<Rightarrow> Some (Inl (TypeError, h))
      | Some ob \<Rightarrow>
          if truthy (slot_get ob name)
          then bind_parameter (evaluate n rv natives) h (slot_get ob name) paramObj
          else
            (case bfs h name [] (map (slot_get ob) (parents ob)) of
               Inl e \<Rightarrow> Some (Inl (e, h))
             | Inr (Some v, visited) \<Rightarrow> bind_parameter (evaluate n rv natives) h v paramObj
             | Inr (None, visited) \<Rightarrow> Some (Inr (VNull, h))))"

subsection \<open>evaluate, sendAMessage and sendAMessageWithParameters of part_000\<close>

text \<open>
  In part_000 \<open>evaluate\<close> hands the native function a copy of the object and nothing
  else, and its loop sends every message to the copy and throws nothing. \<open>sendAMessage\<close>
  is a depth-first recursion through the parents with a \<open>visited\<close> set shared by all
  calls; it goes on to the next parent when a parent's answer is falsy.
  \<open>sendAMessageWithParameters\<close> recurses through the parents with no \<open>visited\<close> set.
  The loops read \<open>this.parents\<close> and \<open>this.slots\<close> once: no object that exists is
  changed while they run. Fuel bounds the depth of nested method calls.
\<close>

type_synonym outcome_v = "((error \<times> heap) + (val \<times> heap \<times> val list)) option"

fun heap_of_v :: "(error \<times> heap) + (val \<times> heap \<times> val list) \<Rightarrow> heap" where
  "heap_of_v (Inl (e, h)) = h"
| "heap_of_v (Inr (v, h, visited)) = h"

fun chain_p ::
  "(heap \<Rightarrow> val \<Rightarrow> string \<Rightarrow> val list \<Rightarrow> outcome_v) \<Rightarrow> heap \<Rightarrow> val \<Rightarrow> val \<Rightarrow> string list \<Rightarrow> outcome" where
  "chain_p send h cp result [] = Some (Inr (result, h))"
| "chain_p send h cp result (msg # msgs) =
     (case send h cp msg [] of
        None \<Rightarrow> None
      | Some (Inl e) \<Rightarrow> Some (Inl e)
      | Some (Inr (res, h', visited)) \<Rightarrow> chain_p send h' cp res msgs)"

definition evaluate_p_body ::
  "(heap \<Rightarrow> val \<Rightarrow> string \<Rightarrow> val list \<Rightarrow> outcome_v) \<Rightarrow> (nat \<Rightarrow> native) \<Rightarrow> heap \<Rightarrow> val \<Rightarrow> outcome" where
  "evaluate_p_body send natives h this =
     (case deref h this of
        None \<Rightarrow> Some (Inl (TypeError, h))
      | Some ob \<Rightarrow>
          if primitive ob \<noteq> VNull then
            (case copy h ob of (c, h') \<Rightarrow> Some (Inr (VRef c, h')))
          else
            (case primitiveFn ob of
               Some f \<Rightarrow>
                 (case copy h ob of (c, h') \<Rightarrow> call_native natives f h' (VRef c) VUndefined)
             | None \<Rightarrow>
                 if messages ob \<noteq> [] then
                   (case copy h ob of (c, h') \<Rightarrow>
                      chain_p send h' (VRef c) (VRef c) (messages (copy_fields ob)))
                 else Some (Inr (this, h))))"

fun parents_p ::
  "(heap \<Rightarrow> val \<Rightarrow> string \<Rightarrow> val list \<Rightarrow> outcome_v) \<Rightarrow> heap \<Rightarrow> self_object \<Rightarrow> string \<Rightarrow>
   val list \<Rightarrow> string list \<Rightarrow> outcome_v" where
  "parents_p send h this_ob name visited [] = Some (Inr (VNull, h, visited))"
| "parents_p send h this_ob name visited (parentName # rest) =
     (if truthy (slot_get this_ob parentName) \<and> slot_get this_ob parentName \<notin> set visited
      then
        (case send h (slot_get this_ob parentName) name visited of
           None \<Rightarrow> None
         | Some (Inl e) \<Rightarrow> Some (Inl e)
         | Some (Inr (result, h', visited')) \<Rightarrow>
             if truthy result then Some (Inr (result, h', visited'))
             else parents_p send h' this_ob name visited' rest)
      else parents_p send h this_ob name visited rest)"

definition sendAMessage_p_body ::
  "(heap \<Rightarrow> val \<Rightarrow> outcome) \<Rightarrow> (heap \<Rightarrow> val \<Rightarrow> string \<Rightarrow> val list \<Rightarrow> outcome_v) \<Rightarrow>
   heap \<Rightarrow> val \<Rightarrow> string \<Rightarrow> val list \<Rightarrow> outcome_v" where
  "sendAMessage_p_body ev send h this name visited =
     (case deref h this of
        None \<Rightarrow> Some (Inl (TypeError, h))
      | Some ob \<Rightarrow>
          if truthy (slot_get ob name) then
            (case ev h (slot_get ob name) of
               None \<Rightarrow> None
             | Some (Inl e) \<Rightarrow> Some (Inl e)
             | Some (Inr (v, h')) \<Rightarrow> Some (Inr (v, h', visited)))
          else parents_p send h ob name (set_add this visited) (parents ob))"

text \<open>Both methods at call depth \<open>n\<close>, defined together: \<open>(evaluate, sendAMessage)\<close>.\<close>

primrec engine_p ::
  "nat \<Rightarrow> (nat \<Rightarrow> native) \<Rightarrow>
   (heap \<Rightarrow> val \<Rightarrow> outcome) \<times> (heap \<Rightarrow> val \<Rightarrow> string \<Rightarrow> val list \<Rightarrow> outcome_v)" where
  "engine_p 0 natives = (\<lambda>h this. None, \<lambda>h this name visited. None)"
| "engine_p (Suc n) natives =
     (evaluate_p_body (snd (engine_p n natives)) natives,
      sendAMessage_p_body (fst (engine_p n natives)) (snd (engine_p n natives)))"

definition evaluate_p :: "nat \<Rightarrow> (nat \<Rightarrow> native) \<Rightarrow> heap \<Rightarrow> val \<Rightarrow> outcome" where
  "evaluate_p n natives = fst (engine_p n natives)"

definition sendAMessage_p ::
  "nat \<Rightarrow> (nat \<Rightarrow> native) \<Rightarrow> heap \<Rightarrow> val \<Rightarrow> string \<Rightarrow> val list \<Rightarrow> outcome_v" where
  "sendAMessage_p n natives = snd (engine_p n natives)"

text \<open>\<open>parent?.sendAMessageWithParameters(...)\<close> is \<open>undefined\<close> for a parent that is
  \<open>null\<close> or \<open>undefined\<close>, and a call otherwise.\<close>

fun parents_wp ::
  "(heap \<Rightarrow> val \<Rightarrow> outcome) \<Rightarrow> heap \<Rightarrow> self_object \<Rightarrow> string list \<Rightarrow> outcome" where
  "parents_wp sendw h this_ob [] = Some (Inr (VNull, h))"
| "parents_wp sendw h this_ob (parentName # rest) =
     (case (if slot_get this_ob parentName = VNull \<or> slot_get this_ob parentName = VUndefined
            then Some (Inr (VUndefined, h))
            else sendw h (slot_get this_ob parentName))
      of
        None \<Rightarrow> None
      | Some (Inl e) \<Rightarrow> Some (Inl e)
      | Some (Inr (result, h')) \<Rightarrow>
          if truthy result then Some (Inr (result, h'))
          else parents_wp sendw h' this_ob rest)"

definition sendAMessageWithParameters_p_body ::
  "(heap \<Rightarrow> val \<Rightarrow> outcome) \<Rightarrow> (heap \<Rightarrow> val \<Rightarrow> string \<Rightarrow> val \<Rightarrow> outcome) \<Rightarrow>
   heap \<Rightarrow> val \<Rightarrow> string \<Rightarrow> val \<Rightarrow> outcome" where
  "sendAMessageWithParameters_p_body ev sendw h this name paramObj =
     (case deref h this of
        None \<Rightarrow> Some (Inl (TypeError, h))
      | Some ob \<Rightarrow>
          if truthy (slot_get ob name)
          then bind_parameter ev h (slot_get ob name) paramObj
          else parents_wp (\<lambda>h' parent. sendw h' parent name paramObj) h ob (parents ob))"

primrec sendAMessageWithParameters_p ::
  "nat \<Rightarrow> (nat \<Rightarrow> native) \<Rightarrow> heap \<Rightarrow> val \<Rightarrow> string \<Rightarrow> val \<Rightarrow> outcome" where
  "sendAMessageWithParameters_p 0 natives = (\<lambda>h this name paramObj. None)"
| "sendAMessageWithParameters_p (Suc n) natives =
     sendAMessageWithParameters_p_body (evaluate_p n natives) (sendAMessageWithParameters_p n natives)"

subsection \<open>Example graphs and native functions\<close>

text \<open>
  \<open>addOne\<close> of part_000 (lines 111-116): it reads the \<open>parameter\<close> slot of its
  argument, creates one object, and gives it the parameter's primitive plus one. For a
  parameter that is \<open>undefined\<close> or \<open>null\<close> the JavaScript throws a TypeError, after the
  new object has been created. \<open>+ 1\<close> is the sum for a number, 1 for \<open>null\<close>, 1 or 2 for
  a boolean, and the text with \<open>1\<close> appended for a string. In the remaining cases (the
  parameter is a value that is neither an object nor \<open>null\<close> nor \<open>undefined\<close>, or its
  primitive is \<open>undefined\<close> or an object) the JavaScript yields \<open>NaN\<close> or a text made
  from an object, which are no values of \<open>val\<close>; the definition answers with a TypeError
  there, and no statement below applies it to such a parameter.
  \<open>second_arg\<close> and \<open>first_arg\<close> return the argument they are named after.
\<close>

definition addOne :: native where
  "addOne h self arg =
     (case deref h self of
        None \<Rightarrow> Inl (TypeError, [])
      | Some sob \<Rightarrow>
          (case deref h (slot_get sob ''parameter'') of
             None \<Rightarrow> Inl (TypeError, [new_object])
           | Some pob \<Rightarrow>
               (case primitive pob of
                  VNum k \<Rightarrow> Inr (VRef (length h), [new_object\<lparr>primitive := VNum (k + 1)\<rparr>])
                | VNull \<Rightarrow> Inr (VRef (length h), [new_object\<lparr>primitive := VNum 1\<rparr>])
                | VBool b \<Rightarrow>
                    Inr (VRef (length h), [new_object\<lparr>primitive := VNum (if b then 2 else 1)\<rparr>])
                | VStr t \<Rightarrow> Inr (VRef (length h), [new_object\<lparr>primitive := VStr (t @ ''1'')\<rparr>])
                | _ \<Rightarrow> Inl (TypeError, [new_object]))))"

definition second_arg :: native where
  "second_arg h self arg = Inr (arg, [])"

definition first_arg :: native where
  "first_arg h self arg = Inr (self, [])"

definition example_natives :: "nat \<Rightarrow> native" where
  "example_natives f = (if f = 0 then addOne else if f = 1 then second_arg else first_arg)"

definition plain :: "(string \<times> val) list \<Rightarrow> string list \<Rightarrow> self_object" where
  "plain sl ps = new_object\<lparr>slots := sl, parents := ps\<rparr>"

definition boxed :: "val \<Rightarrow> self_object" where
  "boxed v = new_object\<lparr>primitive := v\<rparr>"

text \<open>
  A diamond with a cycle: object 0 (\<open>A\<close>) has the parents 1 (\<open>B\<close>) and 2 (\<open>C\<close>), declared in
  this order; both have the parent 3 (\<open>D\<close>), whose parent is \<open>A\<close> again. \<open>C\<close> and \<open>D\<close> have a
  slot \<open>x\<close>; nobody has a slot \<open>y\<close>.
\<close>

definition diamond :: heap where
  "diamond =
    [plain [(''b'', VRef 1), (''c'', VRef 2)] [''b'', ''c''],
     plain [(''d'', VRef 3)] [''d''],
     plain [(''d'', VRef 3), (''x'', VRef 4)] [''d''],
     plain [(''a'', VRef 0), (''x'', VRef 5)] [''a''],
     boxed (VNum 2),
     boxed (VNum 1)]"

text \<open>
  A message chain: object 0 has the messages \<open>b\<close>, \<open>c\<close> and a slot \<open>b\<close> holding object 1,
  which has a slot \<open>c\<close> holding the boxed number 7. Object 0 itself has no slot \<open>c\<close>.
\<close>

definition chained :: heap where
  "chained =
    [(plain [(''b'', VRef 1)] [])\<lparr>messages := [''b'', ''c'']\<rparr>,
     plain [(''c'', VRef 2)] [],
     boxed (VNum 7)]"

text \<open>The example of part_000: the number 5 with a slot \<open>increment\<close> holding \<open>addOne\<close>.\<close>

definition increment_example :: heap where
  "increment_example =
    [(boxed (VNum 5))\<lparr>slots := [(''increment'', VRef 1)]\<rparr>,
     new_object\<lparr>primitiveFn := Some 0\<rparr>]"

text \<open>The same with a child: object 2 has object 0 as its parent.\<close>

definition inherited_increment :: heap where
  "inherited_increment = increment_example @ [plain [(''proto'', VRef 0)] [''proto'']]"

text \<open>An object that has everything at once: a primitive, a native function, a message,
  a slot and a parent.\<close>

definition busy :: self_object where
  "busy = \<lparr>slots = [(''p'', VRef 0)], slots_proto = ObjectProto, parents = [''p''],
           messages = [''m''],
           primitive = VStr ''I am A'', primitiveFn = Some 0\<rparr>"

text \<open>Two objects with a native function: the first has a \<open>parameter\<close> slot and the
  native function that returns its second argument, the second the native function that
  returns its first argument.\<close>

definition with_parameter :: heap where
  "with_parameter = [new_object\<lparr>slots := [(''parameter'', VNum 7)], primitiveFn := Some 1\<rparr>]"

definition returns_self :: heap where
  "returns_self = [new_object\<lparr>primitiveFn := Some 2\<rparr>]"

text \<open>
  A chain with a message nobody answers: object 0 has the messages \<open>b\<close>, \<open>nope\<close>, \<open>b\<close> and a
  slot \<open>b\<close> holding the empty object 1.
\<close>

definition broken_chain :: heap where
  "broken_chain =
    [(plain [(''b'', VRef 1)] [])\<lparr>messages := [''b'', ''nope'', ''b'']\<rparr>,
     plain [] []]"

text \<open>An object whose slot \<open>z\<close> holds the number 0, and a child of it.\<close>

definition falsy_slot :: heap where
  "falsy_slot = [plain [(''z'', VNum 0)] [], plain [(''p'', VRef 0)] [''p'']]"

text \<open>
  A memory with two objects: object 0 has a slot \<open>b\<close> that holds object 1, the parent
  \<open>b\<close> and the message \<open>b\<close>; object 1 is the number 7. It is what two calls of the
  constructor, an assignment to \<open>primitive\<close>, \<open>assignParentSlot\<close> and
  \<open>messages.push\<close> build (lemma \<open>example_memory_built\<close> below).
\<close>

definition example_memory :: memory where
  "example_memory =
     \<lparr>instances =
        [\<lparr>slots_ref = 0, parents_ref = 0, messages_ref = 0, primitive_val = VNull, primitiveFn_val = None\<rparr>,
         \<lparr>slots_ref = 1, parents_ref = 1, messages_ref = 1, primitive_val = VNum 7, primitiveFn_val = None\<rparr>],
      plain_objects =
        [\<lparr>properties = [(''b'', VRef 1)], prototype = ObjectProto\<rparr>,
         \<lparr>properties = [], prototype = ObjectProto\<rparr>],
      set_objects = [[''b''], []],
      array_objects = [[''b''], []]\<rparr>"


section \<open>What the specification says, as definitions\<close>

text \<open>
  Message chains (spec 4.3, step 3): every message is sent to the result of the message
  before it, the first one to \<open>receiver\<close>; every result is truthy; \<open>final\<close> is the result of
  the last message and \<open>hF\<close> the store then.
\<close>

inductive threads ::
  "(heap \<Rightarrow> val \<Rightarrow> string \<Rightarrow> outcome) \<Rightarrow> heap \<Rightarrow> val \<Rightarrow> string list \<Rightarrow> val \<Rightarrow> heap \<Rightarrow> bool"
  for send where
  last_message:
    "send h receiver msg = Some (Inr (res, h')) \<Longrightarrow> truthy res \<Longrightarrow>
     threads send h receiver [msg] res h'"
| next_message:
    "send h receiver msg = Some (Inr (res, h')) \<Longrightarrow> truthy res \<Longrightarrow>
     threads send h' res (m # msgs) final hF \<Longrightarrow>
     threads send h receiver (msg # m # msgs) final hF"

code_pred threads .

text \<open>What part_000 does instead: every message is sent to the same object \<open>cp\<close>, with a
  new \<open>visited\<close> set, whatever the results are.\<close>

inductive all_to_copy ::
  "(heap \<Rightarrow> val \<Rightarrow> string \<Rightarrow> val list \<Rightarrow> outcome_v) \<Rightarrow> val \<Rightarrow> heap \<Rightarrow> string list \<Rightarrow> val \<Rightarrow> heap \<Rightarrow> bool"
  for send cp where
  last_to_copy:
    "send h cp msg [] = Some (Inr (res, h', visited)) \<Longrightarrow> all_to_copy send cp h [msg] res h'"
| next_to_copy:
    "send h cp msg [] = Some (Inr (res, h', visited)) \<Longrightarrow>
     all_to_copy send cp h' (m # msgs) final hF \<Longrightarrow>
     all_to_copy send cp h (msg # m # msgs) final hF"

code_pred all_to_copy .

text \<open>
  A queue entry the search passes over: a falsy value, or an object whose slot \<open>name\<close> is
  not truthy.
\<close>

definition misses :: "heap \<Rightarrow> string \<Rightarrow> val \<Rightarrow> bool" where
  "misses h name v =
     (\<not> truthy v \<or> (case deref h v of None \<Rightarrow> False | Some ob \<Rightarrow> \<not> truthy (slot_get ob name)))"

text \<open>
  Level order (spec 4.4): \<open>scan\<close> goes through one level of the parent graph from left to
  right and collects the parents of the objects it passes, in order, as the next level;
  \<open>level_order\<close> searches level after level.
\<close>

datatype scan_result = Hit val "val list" | Fault error | Next "val list" "val list"

fun scan :: "heap \<Rightarrow> string \<Rightarrow> val list \<Rightarrow> val list \<Rightarrow> val list \<Rightarrow> scan_result" where
  "scan h name visited [] deeper = Next visited deeper"
| "scan h name visited (current # level) deeper =
     (if \<not> truthy current \<or> current \<in> set visited then scan h name visited level deeper
      else
        (case deref h current of
           None \<Rightarrow> Fault TypeError
         | Some ob \<Rightarrow>
             if truthy (slot_get ob name) then Hit (slot_get ob name) (set_add current visited)
             else scan h name (set_add current visited) level
                    (deeper @ map (slot_get ob) (parents ob))))"

lemma scan_Next:
  "scan h name visited level deeper = Next visited' deeper' \<Longrightarrow>
   unvisited h visited' < unvisited h visited \<or> (visited' = visited \<and> deeper' = deeper)"
proof (induction level arbitrary: visited deeper)
  case Nil
  then show ?case by simp
next
  case (Cons current level)
  show ?case
  proof (cases "\<not> truthy current \<or> current \<in> set visited")
    case True
    then show ?thesis using Cons by simp
  next
    case False
    then obtain ob where ob: "deref h current = Some ob"
      using Cons.prems by (auto split: option.splits)
    with False Cons.prems have
      "scan h name (set_add current visited) level (deeper @ map (slot_get ob) (parents ob))
         = Next visited' deeper'"
      by (auto split: if_splits)
    from Cons.IH [OF this] have "unvisited h visited' \<le> unvisited h (set_add current visited)"
      by auto
    moreover have "unvisited h (set_add current visited) < unvisited h visited"
      using ob False by (simp add: unvisited_less)
    ultimately show ?thesis by simp
  qed
qed

function level_order ::
  "heap \<Rightarrow> string \<Rightarrow> val list \<Rightarrow> val list \<Rightarrow> error + (val option \<times> val list)" where
  "level_order h name visited level =
     (if level = [] then Inr (None, visited)
      else
        (case scan h name visited level [] of
           Hit v visited' \<Rightarrow> Inr (Some v, visited')
         | Fault e \<Rightarrow> Inl e
         | Next visited' deeper \<Rightarrow> level_order h name visited' deeper))"
  by pat_completeness auto

termination level_order
proof (relation "inv_image (less_than <*lex*> less_than)
        (\<lambda>(h, name, visited, level). (unvisited h visited, length level))", goal_cases)
  case 1
  show ?case by auto
next
  case (2 h name visited level visited' deeper)
  then show ?case using scan_Next [of h name visited level "[]" visited' deeper] by auto
qed

text \<open>
  The ancestors of an object: what the truthy values of its parent slots, and of theirs, are.
  \<open>parent_closed h name S\<close>: \<open>S\<close> holds objects only, none of them has a truthy slot \<open>name\<close>,
  and \<open>S\<close> holds the truthy parent values of its members. \<open>graph_misses\<close> is a check that
  can be run: no object of the store has a truthy slot \<open>name\<close>, and every truthy parent value
  is an object.
\<close>

inductive_set ancestors :: "heap \<Rightarrow> val \<Rightarrow> val set" for h this where
  parent:
    "deref h this = Some ob \<Longrightarrow> p \<in> set (parents ob) \<Longrightarrow> truthy (slot_get ob p) \<Longrightarrow>
     slot_get ob p \<in> ancestors h this"
| grandparent:
    "a \<in> ancestors h this \<Longrightarrow> deref h a = Some ob \<Longrightarrow> p \<in> set (parents ob) \<Longrightarrow>
     truthy (slot_get ob p) \<Longrightarrow> slot_get ob p \<in> ancestors h this"

definition parent_closed :: "heap \<Rightarrow> string \<Rightarrow> val set \<Rightarrow> bool" where
  "parent_closed h name S \<longleftrightarrow>
     (\<forall>a\<in>S. truthy a \<and> misses h name a
        \<and> (\<forall>ob p. deref h a = Some ob \<longrightarrow> p \<in> set (parents ob) \<longrightarrow> truthy (slot_get ob p)
              \<longrightarrow> slot_get ob p \<in> S))"

definition graph_misses :: "heap \<Rightarrow> string \<Rightarrow> bool" where
  "graph_misses h name =
     list_all (\<lambda>ob. \<not> truthy (slot_get ob name)
        \<and> list_all (\<lambda>p. \<not> truthy (slot_get ob p) \<or> deref h (slot_get ob p) \<noteq> None) (parents ob)) h"

text \<open>
  A caller that makes one parameterized dispatch after the other, whether they return or
  throw; the result is the store after the last one (\<open>None\<close> when one of them has no result
  within its fuel).
\<close>

fun calls_in_sequence ::
  "(heap \<Rightarrow> val \<Rightarrow> string \<Rightarrow> val \<Rightarrow> outcome) \<Rightarrow> heap \<Rightarrow> (val \<times> string \<times> val) list \<Rightarrow> heap option" where
  "calls_in_sequence sendw h [] = Some h"
| "calls_in_sequence sendw h ((receiver, name, paramObj) # calls) =
     (case sendw h receiver name paramObj of
        None \<Rightarrow> None
      | Some out \<Rightarrow> calls_in_sequence sendw (heap_of out) calls)"

text \<open>
  A parent that the loop of \<open>sendAMessageWithParameters\<close> of part_000 passes over: it is
  \<open>null\<close> or \<open>undefined\<close>, or the call on it returns a value that is not truthy and
  leaves the store as it is.
\<close>

definition passed_over ::
  "nat \<Rightarrow> (nat \<Rightarrow> native) \<Rightarrow> heap \<Rightarrow> string \<Rightarrow> val \<Rightarrow> val \<Rightarrow> bool" where
  "passed_over n natives h name paramObj parent =
     (parent = VNull \<or> parent = VUndefined
      \<or> (case sendAMessageWithParameters_p n natives h parent name paramObj of
            Some (Inr (res, h')) \<Rightarrow> \<not> truthy res \<and> h' = h
          | _ \<Rightarrow> False))"


section \<open>Basic facts\<close>

lemma deref_VRef: "deref h (VRef r) = (if r < length h then Some (h ! r) else None)"
  by (simp add: deref_def)

lemma copy_fields_simps [simp]:
  "slots (copy_fields ob) = slots ob"
  "slots_proto (copy_fields ob) = ObjectProto"
  "parents (copy_fields ob) = parents ob"
  "messages (copy_fields ob) = messages ob"
  "primitive (copy_fields ob) = primitive ob"
  "primitiveFn (copy_fields ob) = primitiveFn ob"
  by (simp_all add: copy_fields_def)

lemma copy_eq: "copy h ob = (length h, h @ [copy_fields ob])"
  by (simp add: copy_def alloc_def)

lemma slot_get_parameter:
  "slot_get ob ''parameter'' = (case map_of (slots ob) ''parameter'' of None \<Rightarrow> VUndefined | Some v \<Rightarrow> v)"
  by (simp add: slot_get_def property_get_def object_prototype_names_def split: option.splits)

lemma slot_get_own: "map_of (slots ob) name = Some v \<Longrightarrow> slot_get ob name = v"
  by (simp add: slot_get_def property_get_def)

lemma evaluate_Suc:
  "evaluate (Suc n) rv natives h this = evaluate_body (sendAMessage n rv natives) rv natives h this"
  by (simp add: sendAMessage_def)

lemma evaluate_0: "evaluate 0 rv natives h this = None"
  by simp

lemma evaluate_p_Suc:
  "evaluate_p (Suc n) natives h this = evaluate_p_body (sendAMessage_p n natives) natives h this"
  by (simp add: evaluate_p_def sendAMessage_p_def)

lemma sendAMessage_p_Suc:
  "sendAMessage_p (Suc n) natives h this name visited =
     sendAMessage_p_body (evaluate_p n natives) (sendAMessage_p n natives) h this name visited"
  by (simp add: evaluate_p_def sendAMessage_p_def)

lemma evaluate_p_0: "evaluate_p 0 natives h this = None"
  by (simp add: evaluate_p_def)

lemma sendAMessage_p_0: "sendAMessage_p 0 natives h this name visited = None"
  by (simp add: sendAMessage_p_def)

lemma sendAMessageWithParameters_p_Suc:
  "sendAMessageWithParameters_p (Suc n) natives h this name paramObj =
     sendAMessageWithParameters_p_body (evaluate_p n natives)
       (sendAMessageWithParameters_p n natives) h this name paramObj"
  by simp

lemmas example_defs =
  diamond_def chained_def broken_chain_def increment_example_def inherited_increment_def
  with_parameter_def
  returns_self_def busy_def falsy_slot_def
  plain_def boxed_def new_object_def
  example_natives_def addOne_def second_arg_def first_arg_def

declare evaluate.simps(2) [simp del]
declare engine_p.simps(2) [simp del]
declare sendAMessageWithParameters_p.simps(2) [simp del]
declare level_order.simps [simp del]

subsection \<open>The memory and its view\<close>

text \<open>
  On a memory in which no container is held by two objects, the methods on the memory do to
  the view what the methods on the store of records do; the constructor and \<open>copy\<close> keep
  the containers separate, and so do the mutators.
\<close>

lemma length_view [simp]: "length (view m) = length (instances m)"
  by (simp add: view_def)

lemma view_nth: "i < length (instances m) \<Longrightarrow> view m ! i = view_instance m (instances m ! i)"
  by (simp add: view_def)

lemma well_addressed_nth:
  "well_addressed m \<Longrightarrow> i < length (instances m) \<Longrightarrow>
   slots_ref (instances m ! i) < length (plain_objects m)
   \<and> parents_ref (instances m ! i) < length (set_objects m)
   \<and> messages_ref (instances m ! i) < length (array_objects m)"
  by (simp add: well_addressed_def list_all_length)

lemma separate_refs:
  assumes "separate m" and "i < length (instances m)" and "j < length (instances m)" and "i \<noteq> j"
  shows "slots_ref (instances m ! i) \<noteq> slots_ref (instances m ! j)"
    and "parents_ref (instances m ! i) \<noteq> parents_ref (instances m ! j)"
    and "messages_ref (instances m ! i) \<noteq> messages_ref (instances m ! j)"
proof -
  have "distinct (map slots_ref (instances m))" "distinct (map parents_ref (instances m))"
    "distinct (map messages_ref (instances m))"
    using assms(1) by (simp_all add: separate_def)
  from this [THEN nth_eq_iff_index_eq, of i j] assms(2-4)
  show "slots_ref (instances m ! i) \<noteq> slots_ref (instances m ! j)"
    and "parents_ref (instances m ! i) \<noteq> parents_ref (instances m ! j)"
    and "messages_ref (instances m ! i) \<noteq> messages_ref (instances m ! j)"
    by simp_all
qed

lemma construct_eq:
  "construct m =
     (length (instances m),
      \<lparr>instances = instances m @
          [\<lparr>slots_ref = length (plain_objects m), parents_ref = length (set_objects m),
            messages_ref = length (array_objects m), primitive_val = VNull, primitiveFn_val = None\<rparr>],
       plain_objects = plain_objects m @ [\<lparr>properties = [], prototype = ObjectProto\<rparr>],
       set_objects = set_objects m @ [[]],
       array_objects = array_objects m @ [[]]\<rparr>)"
  by (simp add: construct_def new_plain_object_def new_set_def new_array_def)

lemma copy_m_eq:
  assumes "well_addressed m" and "r < length (instances m)"
  shows "copy_m m r =
     (length (instances m),
      \<lparr>instances = instances m @
          [\<lparr>slots_ref = Suc (length (plain_objects m)), parents_ref = Suc (length (set_objects m)),
            messages_ref = Suc (length (array_objects m)),
            primitive_val = primitive_val (instances m ! r),
            primitiveFn_val = primitiveFn_val (instances m ! r)\<rparr>],
       plain_objects = plain_objects m @
          [\<lparr>properties = [], prototype = ObjectProto\<rparr>,
           \<lparr>properties = properties (plain_objects m ! slots_ref (instances m ! r)),
            prototype = ObjectProto\<rparr>],
       set_objects = set_objects m @ [[], set_objects m ! parents_ref (instances m ! r)],
       array_objects = array_objects m @ [[], array_objects m ! messages_ref (instances m ! r)]\<rparr>)"
  using assms(2) well_addressed_nth [OF assms]
  by (simp add: copy_m_def construct_eq new_plain_object_def new_set_def new_array_def
        update_instance_def nth_append)

lemma separate_well_addressed: "separate m \<Longrightarrow> well_addressed m"
  by (simp add: separate_def)

lemma view_copy_m:
  assumes "well_addressed m" and "r < length (instances m)" and "copy_m m r = (c, m1)"
  shows "copy (view m) (view m ! r) = (c, view m1)"
proof -
  have m1: "m1 = snd (copy_m m r)" and c: "c = length (instances m)"
    using assms(3) copy_m_eq [OF assms(1,2)] by simp_all
  have old: "map (view_instance m1) (instances m) = map (view_instance m) (instances m)"
  proof (rule map_cong [OF refl])
    fix i assume "i \<in> set (instances m)"
    then have "slots_ref i < length (plain_objects m) \<and> parents_ref i < length (set_objects m)
        \<and> messages_ref i < length (array_objects m)"
      using assms(1) by (simp add: well_addressed_def list_all_iff)
    then show "view_instance m1 i = view_instance m i"
      unfolding m1 copy_m_eq [OF assms(1,2)] by (simp add: view_instance_def nth_append)
  qed
  have "view m1 = view m @ [copy_fields (view m ! r)]"
    unfolding view_def using old assms(2)
    unfolding m1 copy_m_eq [OF assms(1,2)]
    by (simp add: view_instance_def copy_fields_def nth_append)
  then show ?thesis by (simp add: copy_eq c)
qed

lemma separate_copy_m:
  assumes "separate m" and "r < length (instances m)" and "copy_m m r = (c, m1)"
  shows "separate m1"
proof -
  have wa: "well_addressed m" using assms(1) by (rule separate_well_addressed)
  have m1: "m1 = snd (copy_m m r)" using assms(3) by simp
  have b: "\<forall>i\<in>set (instances m). slots_ref i < length (plain_objects m)
      \<and> parents_ref i < length (set_objects m) \<and> messages_ref i < length (array_objects m)"
    using wa by (simp add: well_addressed_def list_all_iff)
  then have "Suc (length (plain_objects m)) \<notin> slots_ref ` set (instances m)"
    "Suc (length (set_objects m)) \<notin> parents_ref ` set (instances m)"
    "Suc (length (array_objects m)) \<notin> messages_ref ` set (instances m)"
    by fastforce+
  moreover have "list_all (\<lambda>i. slots_ref i < Suc (Suc (length (plain_objects m)))
      \<and> parents_ref i < Suc (Suc (length (set_objects m)))
      \<and> messages_ref i < Suc (Suc (length (array_objects m)))) (instances m)"
    using b by (auto simp: list_all_iff)
  ultimately show ?thesis
    using assms(1) unfolding m1 copy_m_eq [OF wa assms(2)]
    by (simp add: separate_def well_addressed_def)
qed

lemma separate_construct: "separate m \<Longrightarrow> separate (snd (construct m))"
proof -
  assume s: "separate m"
  then have b: "\<forall>i\<in>set (instances m). slots_ref i < length (plain_objects m)
      \<and> parents_ref i < length (set_objects m) \<and> messages_ref i < length (array_objects m)"
    by (simp add: separate_def well_addressed_def list_all_iff)
  then have "length (plain_objects m) \<notin> slots_ref ` set (instances m)"
    "length (set_objects m) \<notin> parents_ref ` set (instances m)"
    "length (array_objects m) \<notin> messages_ref ` set (instances m)"
    by fastforce+
  moreover have "list_all (\<lambda>i. slots_ref i < Suc (length (plain_objects m))
      \<and> parents_ref i < Suc (length (set_objects m))
      \<and> messages_ref i < Suc (length (array_objects m))) (instances m)"
    using b by (auto simp: list_all_iff)
  ultimately show ?thesis
    using s by (simp add: construct_eq separate_def well_addressed_def)
qed

lemma view_construct:
  assumes "well_addressed m"
  shows "view (snd (construct m)) = view m @ [new_object]"
proof -
  have "map (view_instance (snd (construct m))) (instances m) = map (view_instance m) (instances m)"
  proof (rule map_cong [OF refl])
    fix i assume "i \<in> set (instances m)"
    then have "slots_ref i < length (plain_objects m) \<and> parents_ref i < length (set_objects m)
        \<and> messages_ref i < length (array_objects m)"
      using assms(1) by (simp add: well_addressed_def list_all_iff)
    then show "view_instance (snd (construct m)) i = view_instance m i"
      by (simp add: construct_eq view_instance_def nth_append)
  qed
  then show ?thesis
    by (simp add: view_def construct_eq view_instance_def new_object_def)
qed

lemma view_update_one:
  assumes "r < length (instances m)" and "instances m' = instances m"
    and "view_instance m' (instances m ! r) = ob"
    and "\<And>i. i < length (instances m) \<Longrightarrow> i \<noteq> r \<Longrightarrow>
           view_instance m' (instances m ! i) = view_instance m (instances m ! i)"
  shows "view m' = (view m)[r := ob]"
proof (rule nth_equalityI)
  show "length (view m') = length ((view m)[r := ob])" using assms(2) by simp
next
  fix i assume "i < length (view m')"
  then have i: "i < length (instances m)" using assms(2) by simp
  show "view m' ! i = (view m)[r := ob] ! i"
  proof (cases "i = r")
    case True
    then show ?thesis using assms(1,2,3) by (simp add: view_def)
  next
    case False
    then show ?thesis using assms(2) assms(4) [OF i False] i by (simp add: view_def)
  qed
qed

lemma view_assignSlot_m:
  assumes "separate m"
  shows "map_option view (assignSlot_m m r name v) = assignSlot (view m) r name v"
proof (cases "r < length (instances m)")
  case False
  then show ?thesis by (simp add: assignSlot_m_def assignSlot_def)
next
  case True
  let ?a = "slots_ref (instances m ! r)"
  have a: "?a < length (plain_objects m)"
    using well_addressed_nth [OF separate_well_addressed [OF assms] True] by simp
  show ?thesis
  proof (cases "property_set (properties (plain_objects m ! ?a)) (prototype (plain_objects m ! ?a)) name v")
    case None
    then show ?thesis
      using True by (simp add: assignSlot_m_def assignSlot_def set_slot_def view_nth view_instance_def)
  next
    case (Some pp)
    obtain props pr where pp: "pp = (props, pr)" by (cases pp)
    let ?m' = "m\<lparr>plain_objects := (plain_objects m)[?a := \<lparr>properties = props, prototype = pr\<rparr>]\<rparr>"
    have "view ?m' = (view m)[r := (view m ! r)\<lparr>slots := props, slots_proto := pr\<rparr>]"
    proof (rule view_update_one [OF True])
      show "instances ?m' = instances m" by simp
      show "view_instance ?m' (instances m ! r) = (view m ! r)\<lparr>slots := props, slots_proto := pr\<rparr>"
        using a True by (simp add: view_instance_def view_nth)
    next
      fix i assume "i < length (instances m)" "i \<noteq> r"
      then have "slots_ref (instances m ! i) \<noteq> ?a"
        using separate_refs(1) [OF assms _ True] by blast
      then show "view_instance ?m' (instances m ! i) = view_instance m (instances m ! i)"
        by (simp add: view_instance_def)
    qed
    then show ?thesis
      using True Some pp
      by (simp add: assignSlot_m_def assignSlot_def set_slot_def view_nth view_instance_def)
  qed
qed

lemma view_makeParent_m:
  assumes "separate m"
  shows "view (makeParent_m m r name) = makeParent (view m) r name"
proof (cases "r < length (instances m)")
  case False
  then show ?thesis by (simp add: makeParent_m_def makeParent_def)
next
  case True
  let ?p = "parents_ref (instances m ! r)"
  have p: "?p < length (set_objects m)"
    using well_addressed_nth [OF separate_well_addressed [OF assms] True] by simp
  have g: "slot_get (view m ! r) name =
      property_get (properties (plain_objects m ! slots_ref (instances m ! r)))
        (prototype (plain_objects m ! slots_ref (instances m ! r))) name"
    using True by (simp add: slot_get_def view_nth view_instance_def)
  show ?thesis
  proof (cases "truthy (slot_get (view m ! r) name)")
    case False
    then show ?thesis using True g by (simp add: makeParent_m_def makeParent_def)
  next
    case t: True
    let ?m' = "m\<lparr>set_objects := (set_objects m)[?p := set_add name (set_objects m ! ?p)]\<rparr>"
    have "view ?m' = (view m)[r := (view m ! r)\<lparr>parents := set_add name (parents (view m ! r))\<rparr>]"
    proof (rule view_update_one [OF True])
      show "instances ?m' = instances m" by simp
      show "view_instance ?m' (instances m ! r)
          = (view m ! r)\<lparr>parents := set_add name (parents (view m ! r))\<rparr>"
        using p True by (simp add: view_instance_def view_nth)
    next
      fix i assume "i < length (instances m)" "i \<noteq> r"
      then have "parents_ref (instances m ! i) \<noteq> ?p"
        using separate_refs(2) [OF assms _ True] by blast
      then show "view_instance ?m' (instances m ! i) = view_instance m (instances m ! i)"
        by (simp add: view_instance_def)
    qed
    then show ?thesis using True t g by (simp add: makeParent_m_def makeParent_def)
  qed
qed

lemma view_push_message_m:
  assumes "separate m"
  shows "view (push_message_m m r msg) = push_message (view m) r msg"
proof (cases "r < length (instances m)")
  case False
  then show ?thesis by (simp add: push_message_m_def push_message_def)
next
  case True
  let ?a = "messages_ref (instances m ! r)"
  have a: "?a < length (array_objects m)"
    using well_addressed_nth [OF separate_well_addressed [OF assms] True] by simp
  let ?m' = "m\<lparr>array_objects := (array_objects m)[?a := array_objects m ! ?a @ [msg]]\<rparr>"
  have "view ?m' = (view m)[r := (view m ! r)\<lparr>messages := messages (view m ! r) @ [msg]\<rparr>]"
  proof (rule view_update_one [OF True])
    show "instances ?m' = instances m" by simp
    show "view_instance ?m' (instances m ! r)
        = (view m ! r)\<lparr>messages := messages (view m ! r) @ [msg]\<rparr>"
      using a True by (simp add: view_instance_def view_nth)
  next
    fix i assume "i < length (instances m)" "i \<noteq> r"
    then have "messages_ref (instances m ! i) \<noteq> ?a"
      using separate_refs(3) [OF assms _ True] by blast
    then show "view_instance ?m' (instances m ! i) = view_instance m (instances m ! i)"
      by (simp add: view_instance_def)
  qed
  then show ?thesis using True by (simp add: push_message_m_def push_message_def)
qed

lemma separate_assignSlot_m: "separate m \<Longrightarrow> assignSlot_m m r name v = Some m' \<Longrightarrow> separate m'"
  by (auto simp: assignSlot_m_def separate_def well_addressed_def split: if_splits option.splits)

lemma separate_makeParent_m: "separate m \<Longrightarrow> separate (makeParent_m m r name)"
  by (auto simp: makeParent_m_def separate_def well_addressed_def)

lemma separate_push_message_m: "separate m \<Longrightarrow> separate (push_message_m m r msg)"
  by (auto simp: push_message_m_def separate_def well_addressed_def)

lemma separate_empty_memory: "separate empty_memory"
  by (simp add: separate_def well_addressed_def empty_memory_def)

lemma example_memory_built:
  "map_option (\<lambda>m. push_message_m m 0 ''b'')
     (assignParentSlot_m
        (update_instance 1 (\<lambda>i. i\<lparr>primitive_val := VNum 7\<rparr>)
           (snd (construct (snd (construct empty_memory)))))
        0 ''b'' (VRef 1))
   = Some example_memory"
  by code_simp

lemma assignSlot_Some:
  assumes "assignSlot h r name v = Some h'" and "r < length h"
  shows "set_slot (h ! r) name v = Some (h' ! r)" and "h' = h[r := h' ! r]"
  using assms by (auto simp: assignSlot_def split: option.splits)

lemma copy_m_view:
  assumes "separate m" and "r < length (instances m)" and "copy_m m r = (c, m1)"
  shows "c = length (instances m)" and "view m1 = view m @ [copy_fields (view m ! r)]"
    and "instances m1 ! r = instances m ! r"
proof -
  have wa: "well_addressed m" using assms(1) by (rule separate_well_addressed)
  show c: "c = length (instances m)" using assms(3) copy_m_eq [OF wa assms(2)] by simp
  from view_copy_m [OF wa assms(2,3)] show "view m1 = view m @ [copy_fields (view m ! r)]"
    by (simp add: copy_eq)
  show "instances m1 ! r = instances m ! r"
    using assms(2,3) copy_m_eq [OF wa assms(2)] by (auto simp: nth_append)
qed

subsection \<open>Message chains\<close>

inductive_simps threads_one: "threads send h receiver [msg] res hF"
inductive_simps threads_more: "threads send h receiver (msg # m # msgs) res hF"
inductive_simps all_to_copy_one: "all_to_copy send cp h [msg] res hF"
inductive_simps all_to_copy_more: "all_to_copy send cp h (msg # m # msgs) res hF"

lemma chain_threads:
  "msgs \<noteq> [] \<Longrightarrow>
   chain send h receiver r0 msgs = Some (Inr (res, hF)) \<longleftrightarrow> threads send h receiver msgs res hF"
proof (induction msgs arbitrary: h receiver r0)
  case Nil
  then show ?case by simp
next
  case (Cons msg rest)
  show ?case
  proof (cases rest)
    case Nil
    then show ?thesis
      by (auto simp: threads_one split: option.splits sum.splits if_splits)
  next
    case (Cons m ms)
    then have IH: "\<And>h receiver r0. chain send h receiver r0 rest = Some (Inr (res, hF))
        \<longleftrightarrow> threads send h receiver rest res hF"
      using Cons.IH by simp
    show ?thesis
      unfolding Cons threads_more
      using IH unfolding Cons
      by (auto split: option.splits sum.splits if_splits)
  qed
qed

lemma chain_p_all_to_copy:
  "msgs \<noteq> [] \<Longrightarrow>
   chain_p send h cp r0 msgs = Some (Inr (res, hF)) \<longleftrightarrow> all_to_copy send cp h msgs res hF"
proof (induction msgs arbitrary: h r0)
  case Nil
  then show ?case by simp
next
  case (Cons msg rest)
  show ?case
  proof (cases rest)
    case Nil
    then show ?thesis
      by (auto simp: all_to_copy_one split: option.splits sum.splits if_splits)
  next
    case (Cons m ms)
    then have IH: "\<And>h r0. chain_p send h cp r0 rest = Some (Inr (res, hF))
        \<longleftrightarrow> all_to_copy send cp h rest res hF"
      using Cons.IH by simp
    show ?thesis
      unfolding Cons all_to_copy_more
      using IH unfolding Cons
      by (auto split: option.splits sum.splits if_splits)
  qed
qed

lemma chain_after_threads:
  "threads send h receiver before v h1 \<Longrightarrow>
   chain send h receiver r0 (before @ rest) = chain send h1 v v rest"
  by (induction arbitrary: r0 rule: threads.induct) auto

subsection \<open>The breadth-first search\<close>

lemma bfs_scan:
  "bfs h name visited (level @ deeper) =
     (case scan h name visited level deeper of
        Hit v visited' \<Rightarrow> Inr (Some v, visited')
      | Fault e \<Rightarrow> Inl e
      | Next visited' deeper' \<Rightarrow> bfs h name visited' deeper')"
  by (induction level arbitrary: visited deeper) (auto split: option.splits)

lemma bfs_level_order: "bfs h name visited level = level_order h name visited level"
proof (induction h name visited level rule: level_order.induct)
  case (1 h name visited level)
  show ?case
  proof (cases "level = []")
    case True
    then show ?thesis by (simp add: level_order.simps)
  next
    case False
    have "bfs h name visited level = bfs h name visited (level @ [])" by simp
    also have "\<dots> = level_order h name visited level"
      unfolding bfs_scan
      using False 1 by (subst level_order.simps) (auto split: scan_result.splits)
    finally show ?thesis .
  qed
qed

lemma bfs_first_hit:
  assumes "\<forall>v\<in>set earlier. misses h name v" and "\<forall>v\<in>set visited. misses h name v"
    and "deref h p = Some pob" and "truthy (slot_get pob name)"
  shows "\<exists>vis. bfs h name visited (earlier @ p # later) = Inr (Some (slot_get pob name), vis)"
  using assms(1,2)
proof (induction earlier arbitrary: visited later)
  case Nil
  have "truthy p" using assms(3) by (auto simp: deref_Some_iff)
  moreover have "p \<notin> set visited"
    using Nil(2) assms(3,4) \<open>truthy p\<close> by (auto simp: misses_def)
  ultimately show ?case using assms(3,4) by simp
next
  case (Cons v earlier)
  show ?case
  proof (cases "\<not> truthy v \<or> v \<in> set visited")
    case True
    then show ?thesis using Cons.IH [of visited later] Cons.prems by simp
  next
    case False
    then obtain ob where ob: "deref h v = Some ob" "\<not> truthy (slot_get ob name)"
      using Cons.prems(1) by (auto simp: misses_def split: option.splits)
    have "\<forall>v\<in>set (set_add v visited). misses h name v"
      using Cons.prems by (auto simp: set_add_def)
    from Cons.IH [OF _ this, of "later @ map (slot_get ob) (parents ob)"] Cons.prems(1)
    show ?thesis using False ob by simp
  qed
qed

subsection \<open>Searches that find nothing\<close>

lemma parent_closed_object:
  assumes "parent_closed h name S" and "a \<in> S"
  obtains ob where "deref h a = Some ob" and "\<not> truthy (slot_get ob name)"
    and "\<forall>p\<in>set (parents ob). truthy (slot_get ob p) \<longrightarrow> slot_get ob p \<in> S"
proof -
  from assms have t: "truthy a" and m: "misses h name a"
    and c: "\<forall>ob p. deref h a = Some ob \<longrightarrow> p \<in> set (parents ob) \<longrightarrow> truthy (slot_get ob p)
              \<longrightarrow> slot_get ob p \<in> S"
    unfolding parent_closed_def by blast+
  from t m have "\<exists>ob. deref h a = Some ob \<and> \<not> truthy (slot_get ob name)"
    by (auto simp: misses_def split: option.splits)
  then obtain ob where "deref h a = Some ob" "\<not> truthy (slot_get ob name)" by blast
  with c that show thesis by blast
qed

lemma bfs_none:
  "parent_closed h name S \<Longrightarrow> (\<forall>v\<in>set queue. truthy v \<longrightarrow> v \<in> S) \<Longrightarrow> distinct visited \<Longrightarrow>
   set visited \<subseteq> S \<Longrightarrow>
   \<exists>vis. bfs h name visited queue = Inr (None, vis) \<and> distinct vis \<and> set vis \<subseteq> S"
proof (induction h name visited queue rule: bfs.induct)
  case (1 h name visited)
  then show ?case by simp
next
  case (2 h name visited current queue)
  show ?case
  proof (cases "\<not> truthy current \<or> current \<in> set visited")
    case True
    then show ?thesis using 2 by simp
  next
    case False
    then have inS: "current \<in> S" using "2.prems" by simp
    from parent_closed_object [OF "2.prems"(1) inS] obtain ob where
      ob: "deref h current = Some ob" "\<not> truthy (slot_get ob name)"
        "\<forall>p\<in>set (parents ob). truthy (slot_get ob p) \<longrightarrow> slot_get ob p \<in> S"
      by blast
    have q: "\<forall>v\<in>set (queue @ map (slot_get ob) (parents ob)). truthy v \<longrightarrow> v \<in> S"
      using "2.prems"(2) ob(3) by auto
    have v: "distinct (set_add current visited)" "set (set_add current visited) \<subseteq> S"
      using "2.prems"(3,4) inS False by (auto simp: set_add_def)
    from "2.IH"(2) [OF False ob(1,2) "2.prems"(1) q v] show ?thesis
      using False ob by simp
  qed
qed

lemma parents_p_none:
  assumes send: "\<And>p visited. p \<in> S \<Longrightarrow> p \<notin> set visited \<Longrightarrow> distinct visited \<Longrightarrow>
      set visited \<subseteq> S \<Longrightarrow> card (S - set visited) \<le> n \<Longrightarrow>
      \<exists>vis. send h p name visited = Some (Inr (VNull, h, vis)) \<and> distinct vis
           \<and> set visited \<subseteq> set vis \<and> set vis \<subseteq> S"
    and fin: "finite S"
  shows "(\<forall>p\<in>set ps. truthy (slot_get ob p) \<longrightarrow> slot_get ob p \<in> S) \<Longrightarrow> distinct visited \<Longrightarrow>
         set visited \<subseteq> S \<Longrightarrow> card (S - set visited) \<le> n \<Longrightarrow>
         \<exists>vis. parents_p send h ob name visited ps = Some (Inr (VNull, h, vis)) \<and> distinct vis
              \<and> set visited \<subseteq> set vis \<and> set vis \<subseteq> S"
proof (induction ps arbitrary: visited)
  case Nil
  then show ?case by simp
next
  case (Cons p ps)
  show ?case
  proof (cases "truthy (slot_get ob p) \<and> slot_get ob p \<notin> set visited")
    case False
    then show ?thesis using Cons.IH [of visited] Cons.prems by auto
  next
    case True
    then have "slot_get ob p \<in> S" using Cons.prems(1) by simp
    from send [OF this _ Cons.prems(2,3,4)] True obtain vis where
      vis: "send h (slot_get ob p) name visited = Some (Inr (VNull, h, vis))" "distinct vis"
        "set visited \<subseteq> set vis" "set vis \<subseteq> S"
      by auto
    have "card (S - set vis) \<le> card (S - set visited)"
      using vis(3) fin by (intro card_mono) auto
    then have "card (S - set vis) \<le> n" using Cons.prems(4) by simp
    from Cons.IH [OF _ vis(2,4) this] Cons.prems(1) obtain vis' where
      "parents_p send h ob name vis ps = Some (Inr (VNull, h, vis'))" "distinct vis'"
        "set vis \<subseteq> set vis'" "set vis' \<subseteq> S"
      by auto
    then show ?thesis using True vis by auto
  qed
qed

lemma dfs_none:
  assumes closed: "parent_closed h name S"
    and fin: "finite S"
  shows "this \<in> S \<Longrightarrow> this \<notin> set visited \<Longrightarrow> distinct visited \<Longrightarrow> set visited \<subseteq> S \<Longrightarrow>
         card (S - set visited) \<le> n \<Longrightarrow>
         \<exists>vis. sendAMessage_p n natives h this name visited = Some (Inr (VNull, h, vis))
              \<and> distinct vis \<and> set visited \<subseteq> set vis \<and> set vis \<subseteq> S"
proof (induction n arbitrary: this visited)
  case 0
  have "this \<in> S - set visited" using 0 by simp
  then have "card (S - set visited) > 0" using fin by (auto simp: card_gt_0_iff)
  then show ?case using 0 by simp
next
  case (Suc n)
  from parent_closed_object [OF closed Suc.prems(1)] obtain ob where
    ob: "deref h this = Some ob" "\<not> truthy (slot_get ob name)"
    and ps: "\<forall>p\<in>set (parents ob). truthy (slot_get ob p) \<longrightarrow> slot_get ob p \<in> S"
    by blast
  have v: "distinct (set_add this visited)" "set (set_add this visited) \<subseteq> S"
    using Suc.prems by (auto simp: set_add_def)
  have "S - set (set_add this visited) = (S - set visited) - {this}"
    by (auto simp: set_add_def)
  moreover have "this \<in> S - set visited" using Suc.prems by simp
  ultimately have "card (S - set (set_add this visited)) < card (S - set visited)"
    using fin card_Diff1_less [of "S - set visited" this] by simp
  then have c: "card (S - set (set_add this visited)) \<le> n" using Suc.prems(5) by simp
  from parents_p_none [of S n "sendAMessage_p n natives" h name "parents ob" ob "set_add this visited",
      OF Suc.IH fin ps v c]
  obtain vis where "parents_p (sendAMessage_p n natives) h ob name (set_add this visited) (parents ob)
      = Some (Inr (VNull, h, vis))" "distinct vis" "set (set_add this visited) \<subseteq> set vis" "set vis \<subseteq> S"
    by auto
  then show ?case
    using ob by (auto simp: sendAMessage_p_Suc sendAMessage_p_body_def set_add_def)
qed

lemma graph_misses_ancestors:
  assumes "graph_misses h name" and "a \<in> ancestors h this"
  shows "misses h name a"
proof -
  have ob: "\<And>x ob. deref h x = Some ob \<Longrightarrow> ob \<in> set h"
    by (auto simp: deref_Some_iff)
  have all: "\<And>ob. ob \<in> set h \<Longrightarrow> \<not> truthy (slot_get ob name)"
    and par: "\<And>ob p. ob \<in> set h \<Longrightarrow> p \<in> set (parents ob) \<Longrightarrow> truthy (slot_get ob p) \<Longrightarrow>
               deref h (slot_get ob p) \<noteq> None"
    using assms(1) by (auto simp: graph_misses_def list_all_iff)
  from assms(2) obtain ob p where "ob \<in> set h" "p \<in> set (parents ob)" "truthy (slot_get ob p)"
      "a = slot_get ob p"
    by (cases rule: ancestors.cases) (auto dest: ob)
  with par obtain ob' where "deref h a = Some ob'" by blast
  with ob all show ?thesis by (auto simp: misses_def)
qed

subsection \<open>No method call changes an object that exists\<close>

lemma prefix_trans: "prefix a b \<Longrightarrow> prefix b c \<Longrightarrow> prefix a (c::'a list)"
  by (auto simp: prefix_def)

lemma call_native_grows: "call_native natives f h self arg = Some out \<Longrightarrow> prefix h (heap_of out)"
  by (auto simp: call_native_def split: sum.splits)

lemma chain_grows:
  assumes "\<And>h v m out. send h v m = Some out \<Longrightarrow> prefix h (heap_of out)"
  shows "chain send h cur r msgs = Some out \<Longrightarrow> prefix h (heap_of out)"
proof (induction msgs arbitrary: h cur r)
  case Nil
  then show ?case by auto
next
  case (Cons msg msgs)
  show ?case
  proof (cases "send h cur msg")
    case None
    then show ?thesis using Cons.prems by simp
  next
    case (Some o1)
    from assms [OF Some] have p: "prefix h (heap_of o1)" .
    show ?thesis
    proof (cases o1)
      case (Inl eh)
      then show ?thesis using Some Cons.prems p by (cases eh) auto
    next
      case (Inr vh)
      obtain res h' where vh: "vh = (res, h')" by (cases vh)
      show ?thesis
      proof (cases "truthy res")
        case True
        then have "chain send h' res res msgs = Some out"
          using Cons.prems Some Inr vh by simp
        from Cons.IH [OF this] p show ?thesis
          using Inr vh by (auto intro: prefix_trans)
      next
        case False
        then show ?thesis using Cons.prems Some Inr vh p by auto
      qed
    qed
  qed
qed



lemma sendAMessage_body_grows:
  assumes "\<And>h v out. ev h v = Some out \<Longrightarrow> prefix h (heap_of out)"
    and "sendAMessage_body ev h this name = Some out"
  shows "prefix h (heap_of out)"
proof (cases "deref h this")
  case None
  then show ?thesis using assms(2) by (auto simp: sendAMessage_body_def)
next
  case (Some ob)
  show ?thesis
  proof (cases "truthy (slot_get ob name)")
    case True
    then have "ev h (slot_get ob name) = Some out"
      using assms(2) Some by (simp add: sendAMessage_body_def)
    then show ?thesis by (rule assms(1))
  next
    case False
    show ?thesis
    proof (cases "bfs h name [] (map (slot_get ob) (parents ob))")
      case (Inl e)
      then show ?thesis using assms(2) Some False by (auto simp: sendAMessage_body_def)
    next
      case (Inr found)
      obtain hit visited where found: "found = (hit, visited)" by (cases found)
      show ?thesis
      proof (cases hit)
        case None
        then show ?thesis
          using assms(2) Some False Inr found by (auto simp: sendAMessage_body_def)
      next
        case (Some v)
        then have "ev h v = Some out"
          using assms(2) \<open>deref h this = Some ob\<close> False Inr found
          by (simp add: sendAMessage_body_def)
        then show ?thesis by (rule assms(1))
      qed
    qed
  qed
qed


lemma prefix_append_left: "prefix (h @ ext) h' \<Longrightarrow> prefix h h'"
  by (auto simp: prefix_def)

lemma evaluate_body_grows:
  assumes "\<And>h v m out. send h v m = Some out \<Longrightarrow> prefix h (heap_of out)"
    and "evaluate_body send rv natives h this = Some out"
  shows "prefix h (heap_of out)"
proof (cases "deref h this")
  case None
  then show ?thesis using assms(2) by (auto simp: evaluate_body_def)
next
  case (Some ob)
  show ?thesis
  proof (cases "primitive ob \<noteq> VNull")
    case True
    then show ?thesis using assms(2) Some by (auto simp: evaluate_body_def copy_eq)
  next
    case False
    show ?thesis
    proof (cases "primitiveFn ob")
      case (Some f)
      then show ?thesis
        using assms(2) \<open>deref h this = Some ob\<close> False
        by (auto simp: evaluate_body_def dest: call_native_grows)
    next
      case None
      show ?thesis
      proof (cases "messages ob \<noteq> []")
        case True
        then have "chain send (h @ [copy_fields ob]) (VRef (length h)) VNull (messages ob) = Some out"
          using assms(2) \<open>deref h this = Some ob\<close> False None
          by (simp add: evaluate_body_def copy_eq)
        from chain_grows [of send, OF assms(1) this] show ?thesis
          by (rule prefix_append_left)
      next
        case f: False
        then show ?thesis
          using assms(2) \<open>deref h this = Some ob\<close> False None
          by (auto simp: evaluate_body_def)
      qed
    qed
  qed
qed

lemma evaluate_grows: "evaluate n rv natives h this = Some out \<Longrightarrow> prefix h (heap_of out)"
proof (induction n arbitrary: h this out)
  case 0
  then show ?case by simp
next
  case (Suc n)
  have "\<And>h v m out. sendAMessage n rv natives h v m = Some out \<Longrightarrow> prefix h (heap_of out)"
    unfolding sendAMessage_def using Suc.IH by (rule sendAMessage_body_grows)
  then show ?case
    using Suc.prems unfolding evaluate_Suc by (rule evaluate_body_grows)
qed

lemma put_slot_fresh:
  "(h @ [ob])[length h := put_slot ((h @ [ob]) ! length h) name v] = h @ [put_slot ob name v]"
  by simp

lemma bind_parameter_grows:
  assumes "\<And>h v out. ev h v = Some out \<Longrightarrow> prefix h (heap_of out)"
    and "bind_parameter ev h slot paramObj = Some out"
  shows "prefix h (heap_of out)"
proof (cases "deref h slot")
  case None
  then show ?thesis using assms(2) by (auto simp: bind_parameter_def)
next
  case (Some ob)
  then have "ev (h @ [put_slot (copy_fields ob) ''parameter'' paramObj]) (VRef (length h))
      = Some out"
    using assms(2) by (simp add: bind_parameter_def copy_eq)
  from assms(1) [OF this] show ?thesis by (rule prefix_append_left)
qed

lemma sendAMessageWithParameters_as_body:
  "sendAMessageWithParameters n rv natives h this name paramObj =
     sendAMessage_body (\<lambda>h' slot. bind_parameter (evaluate n rv natives) h' slot paramObj) h this name"
  by (simp add: sendAMessageWithParameters_def sendAMessage_body_def)

lemma sendAMessageWithParameters_grows:
  assumes "sendAMessageWithParameters n rv natives h this name paramObj = Some out"
  shows "prefix h (heap_of out)"
proof (rule sendAMessage_body_grows)
  show "sendAMessage_body (\<lambda>h' slot. bind_parameter (evaluate n rv natives) h' slot paramObj) h this name
      = Some out"
    using assms by (simp add: sendAMessageWithParameters_as_body)
next
  fix h' v out'
  assume "bind_parameter (evaluate n rv natives) h' v paramObj = Some out'"
  then show "prefix h' (heap_of out')"
    by (rule bind_parameter_grows [rotated]) (rule evaluate_grows)
qed

lemma chain_p_grows:
  assumes "\<And>h v m vis out. send h v m vis = Some out \<Longrightarrow> prefix h (heap_of_v out)"
  shows "chain_p send h cp r msgs = Some out \<Longrightarrow> prefix h (heap_of out)"
proof (induction msgs arbitrary: h r)
  case Nil
  then show ?case by auto
next
  case (Cons msg msgs)
  show ?case
  proof (cases "send h cp msg []")
    case None
    then show ?thesis using Cons.prems by simp
  next
    case (Some o1)
    from assms [OF Some] have p: "prefix h (heap_of_v o1)" .
    show ?thesis
    proof (cases o1)
      case (Inl eh)
      then show ?thesis using Some Cons.prems p by (cases eh) auto
    next
      case (Inr vh)
      obtain res h' vis where vh: "vh = (res, h', vis)" by (cases vh)
      have "chain_p send h' cp res msgs = Some out"
        using Cons.prems Some Inr vh by simp
      from Cons.IH [OF this] p show ?thesis
        using Inr vh by (auto intro: prefix_trans)
    qed
  qed
qed

lemma parents_p_grows:
  assumes "\<And>h v m vis out. send h v m vis = Some out \<Longrightarrow> prefix h (heap_of_v out)"
  shows "parents_p send h ob name visited ps = Some out \<Longrightarrow> prefix h (heap_of_v out)"
proof (induction ps arbitrary: h visited)
  case Nil
  then show ?case by auto
next
  case (Cons p ps)
  show ?case
  proof (cases "truthy (slot_get ob p) \<and> slot_get ob p \<notin> set visited")
    case False
    then show ?thesis using Cons by auto
  next
    case True
    show ?thesis
    proof (cases "send h (slot_get ob p) name visited")
      case None
      then show ?thesis using Cons.prems True by simp
    next
      case (Some o1)
      from assms [OF Some] have pr: "prefix h (heap_of_v o1)" .
      show ?thesis
      proof (cases o1)
        case (Inl eh)
        then show ?thesis using Some Cons.prems True pr by (cases eh) auto
      next
        case (Inr vh)
        obtain res h' vis where vh: "vh = (res, h', vis)" by (cases vh)
        show ?thesis
        proof (cases "truthy res")
          case t: True
          then show ?thesis using Cons.prems Some Inr vh True pr by auto
        next
          case f: False
          then have "parents_p send h' ob name vis ps = Some out"
            using Cons.prems Some Inr vh True by simp
          from Cons.IH [OF this] pr show ?thesis
            using Inr vh by (auto intro: prefix_trans)
        qed
      qed
    qed
  qed
qed

lemma evaluate_p_body_grows:
  assumes "\<And>h v m vis out. send h v m vis = Some out \<Longrightarrow> prefix h (heap_of_v out)"
    and "evaluate_p_body send natives h this = Some out"
  shows "prefix h (heap_of out)"
proof (cases "deref h this")
  case None
  then show ?thesis using assms(2) by (auto simp: evaluate_p_body_def)
next
  case (Some ob)
  show ?thesis
  proof (cases "primitive ob \<noteq> VNull")
    case True
    then show ?thesis using assms(2) Some by (auto simp: evaluate_p_body_def copy_eq)
  next
    case False
    show ?thesis
    proof (cases "primitiveFn ob")
      case (Some f)
      then have "call_native natives f (h @ [copy_fields ob]) (VRef (length h)) VUndefined = Some out"
        using assms(2) \<open>deref h this = Some ob\<close> False
        by (simp add: evaluate_p_body_def copy_eq)
      from call_native_grows [OF this] show ?thesis by (rule prefix_append_left)
    next
      case None
      show ?thesis
      proof (cases "messages ob \<noteq> []")
        case True
        then have "chain_p send (h @ [copy_fields ob]) (VRef (length h)) (VRef (length h)) (messages ob)
            = Some out"
          using assms(2) \<open>deref h this = Some ob\<close> False None
          by (simp add: evaluate_p_body_def copy_eq)
        from chain_p_grows [of send, OF assms(1) this] show ?thesis
          by (rule prefix_append_left)
      next
        case f: False
        then show ?thesis
          using assms(2) \<open>deref h this = Some ob\<close> False None
          by (auto simp: evaluate_p_body_def)
      qed
    qed
  qed
qed

lemma sendAMessage_p_body_grows:
  assumes "\<And>h v out. ev h v = Some out \<Longrightarrow> prefix h (heap_of out)"
    and "\<And>h v m vis out. send h v m vis = Some out \<Longrightarrow> prefix h (heap_of_v out)"
    and "sendAMessage_p_body ev send h this name visited = Some out"
  shows "prefix h (heap_of_v out)"
proof (cases "deref h this")
  case None
  then show ?thesis using assms(3) by (auto simp: sendAMessage_p_body_def)
next
  case (Some ob)
  show ?thesis
  proof (cases "truthy (slot_get ob name)")
    case True
    show ?thesis
    proof (cases "ev h (slot_get ob name)")
      case None
      then show ?thesis using assms(3) Some True by (simp add: sendAMessage_p_body_def)
    next
      case (Some o1)
      from assms(1) [OF this] have "prefix h (heap_of o1)" .
      then show ?thesis
        using assms(3) \<open>deref h this = Some ob\<close> True Some
        by (cases o1) (auto simp: sendAMessage_p_body_def)
    qed
  next
    case False
    then have p: "parents_p send h ob name (set_add this visited) (parents ob) = Some out"
      using assms(3) Some by (simp add: sendAMessage_p_body_def)
    show ?thesis by (rule parents_p_grows [OF assms(2) p])
  qed
qed

lemma engine_p_grows:
  "(\<forall>h v out. evaluate_p n natives h v = Some out \<longrightarrow> prefix h (heap_of out))
   \<and> (\<forall>h v m vis out. sendAMessage_p n natives h v m vis = Some out \<longrightarrow> prefix h (heap_of_v out))"
proof (induction n)
  case 0
  then show ?case by (simp add: evaluate_p_0 sendAMessage_p_0)
next
  case (Suc n)
  then have ev: "\<And>h v out. evaluate_p n natives h v = Some out \<Longrightarrow> prefix h (heap_of out)"
    and sd: "\<And>h v m vis out. sendAMessage_p n natives h v m vis = Some out \<Longrightarrow> prefix h (heap_of_v out)"
    by blast+
  have a: "\<And>h v out. evaluate_p (Suc n) natives h v = Some out \<Longrightarrow> prefix h (heap_of out)"
    unfolding evaluate_p_Suc by (rule evaluate_p_body_grows [of "sendAMessage_p n natives", OF sd])
  have b: "\<And>h v m vis out. sendAMessage_p (Suc n) natives h v m vis = Some out
      \<Longrightarrow> prefix h (heap_of_v out)"
    unfolding sendAMessage_p_Suc
    by (rule sendAMessage_p_body_grows [of "evaluate_p n natives" "sendAMessage_p n natives", OF ev sd])
  from a b show ?case by blast
qed

lemma evaluate_p_grows: "evaluate_p n natives h this = Some out \<Longrightarrow> prefix h (heap_of out)"
  using engine_p_grows by blast

lemma parents_wp_grows:
  assumes "\<And>h v out. sendw h v = Some out \<Longrightarrow> prefix h (heap_of out)"
  shows "parents_wp sendw h ob ps = Some out \<Longrightarrow> prefix h (heap_of out)"
proof (induction ps arbitrary: h)
  case Nil
  then show ?case by auto
next
  case (Cons p ps)
  let ?r = "if slot_get ob p = VNull \<or> slot_get ob p = VUndefined
            then Some (Inr (VUndefined, h)) else sendw h (slot_get ob p)"
  show ?case
  proof (cases ?r)
    case None
    then show ?thesis using Cons.prems by simp
  next
    case (Some o1)
    have pr: "prefix h (heap_of o1)"
      using Some assms by (auto split: if_splits)
    show ?thesis
    proof (cases o1)
      case (Inl eh)
      then show ?thesis using Some Cons.prems pr by (cases eh) auto
    next
      case (Inr vh)
      obtain res h' where vh: "vh = (res, h')" by (cases vh)
      show ?thesis
      proof (cases "truthy res")
        case True
        then show ?thesis using Cons.prems Some Inr vh pr by auto
      next
        case False
        then have "parents_wp sendw h' ob ps = Some out"
          using Cons.prems Some Inr vh by simp
        from Cons.IH [OF this] pr show ?thesis
          using Inr vh by (auto intro: prefix_trans)
      qed
    qed
  qed
qed

lemma sendAMessageWithParameters_p_grows:
  "sendAMessageWithParameters_p n natives h this name paramObj = Some out \<Longrightarrow>
   prefix h (heap_of out)"
proof (induction n arbitrary: h this out)
  case 0
  then show ?case by simp
next
  case (Suc n)
  show ?case
  proof (cases "deref h this")
    case None
    then show ?thesis
      using Suc.prems
      by (auto simp: sendAMessageWithParameters_p_Suc sendAMessageWithParameters_p_body_def)
  next
    case (Some ob)
    show ?thesis
    proof (cases "truthy (slot_get ob name)")
      case True
      then have b: "bind_parameter (evaluate_p n natives) h (slot_get ob name) paramObj = Some out"
        using Suc.prems Some
        by (simp add: sendAMessageWithParameters_p_Suc sendAMessageWithParameters_p_body_def)
      show ?thesis by (rule bind_parameter_grows [OF evaluate_p_grows b])
    next
      case False
      then have p: "parents_wp (\<lambda>h' parent. sendAMessageWithParameters_p n natives h' parent name paramObj)
             h ob (parents ob) = Some out"
        using Suc.prems Some
        by (simp add: sendAMessageWithParameters_p_Suc sendAMessageWithParameters_p_body_def)
      show ?thesis by (rule parents_wp_grows [OF Suc.IH p])
    qed
  qed
qed

lemma calls_in_sequence_grows:
  assumes "\<And>h v m p out. sendw h v m p = Some out \<Longrightarrow> prefix h (heap_of out)"
  shows "calls_in_sequence sendw h calls = Some h' \<Longrightarrow> prefix h h'"
proof (induction calls arbitrary: h)
  case Nil
  then show ?case by simp
next
  case (Cons c calls)
  obtain receiver name paramObj where c: "c = (receiver, name, paramObj)" by (cases c)
  show ?case
  proof (cases "sendw h receiver name paramObj")
    case None
    then show ?thesis using Cons.prems c by simp
  next
    case (Some o1)
    then have "calls_in_sequence sendw (heap_of o1) calls = Some h'"
      using Cons.prems c by simp
    from Cons.IH [OF this] assms [OF Some] show ?thesis by (rule prefix_trans [rotated])
  qed
qed

lemma prefix_take: "prefix h h' \<Longrightarrow> take (length h) h' = h"
  by (auto simp: prefix_def)

subsection \<open>Parameterized dispatch through the parents in part_000\<close>

lemma parents_wp_passed_over:
  assumes "list_all (\<lambda>q. passed_over n natives h name paramObj (slot_get ob q)) earlier"
  shows "parents_wp (\<lambda>h' parent. sendAMessageWithParameters_p n natives h' parent name paramObj)
           h ob (earlier @ rest)
       = parents_wp (\<lambda>h' parent. sendAMessageWithParameters_p n natives h' parent name paramObj)
           h ob rest"
  using assms
proof (induction earlier)
  case Nil
  then show ?case by simp
next
  case (Cons q earlier)
  then have p: "passed_over n natives h name paramObj (slot_get ob q)"
    and rest: "list_all (\<lambda>q. passed_over n natives h name paramObj (slot_get ob q)) earlier"
    by simp_all
  show ?case
  proof (cases "slot_get ob q = VNull \<or> slot_get ob q = VUndefined")
    case True
    then show ?thesis using Cons.IH [OF rest] by auto
  next
    case False
    then obtain res where
      "sendAMessageWithParameters_p n natives h (slot_get ob q) name paramObj = Some (Inr (res, h))"
      "\<not> truthy res"
      using p by (auto simp: passed_over_def split: option.splits sum.splits)
    then show ?thesis using False Cons.IH [OF rest] by simp
  qed
qed

lemma bind_parameter_eq:
  "deref h slot = Some sob \<Longrightarrow>
   bind_parameter ev h slot paramObj
     = ev (h @ [put_slot (copy_fields sob) ''parameter'' paramObj]) (VRef (length h))"
  by (simp add: bind_parameter_def copy_eq)

lemma sendAMessageWithParameters_p_parent_call:
  assumes "deref h this = Some ob" and "\<not> truthy (slot_get ob name)"
    and "parents ob = earlier @ pn # later"
    and "list_all (\<lambda>q. passed_over n natives h name paramObj (slot_get ob q)) earlier"
    and "slot_get ob pn \<noteq> VNull" and "slot_get ob pn \<noteq> VUndefined"
  shows "sendAMessageWithParameters_p (Suc n) natives h this name paramObj =
       (case sendAMessageWithParameters_p n natives h (slot_get ob pn) name paramObj of
          None \<Rightarrow> None
        | Some (Inl e) \<Rightarrow> Some (Inl e)
        | Some (Inr (res, h')) \<Rightarrow>
            if truthy res then Some (Inr (res, h'))
            else parents_wp
                   (\<lambda>h' parent. sendAMessageWithParameters_p n natives h' parent name paramObj)
                   h' ob later)"
proof -
  have "sendAMessageWithParameters_p (Suc n) natives h this name paramObj =
      parents_wp (\<lambda>h' parent. sendAMessageWithParameters_p n natives h' parent name paramObj)
        h ob (earlier @ pn # later)"
    using assms(1,2,3)
    by (simp add: sendAMessageWithParameters_p_Suc sendAMessageWithParameters_p_body_def)
  also have "\<dots> =
      parents_wp (\<lambda>h' parent. sendAMessageWithParameters_p n natives h' parent name paramObj)
        h ob (pn # later)"
    by (rule parents_wp_passed_over [OF assms(4)])
  finally show ?thesis
    using assms(5,6) by (simp split: option.splits sum.splits)
qed

lemma sendAMessageWithParameters_p_parent_hit:
  assumes "deref h this = Some ob" and "\<not> truthy (slot_get ob name)"
    and "parents ob = earlier @ pn # later"
    and "list_all (\<lambda>q. passed_over (Suc n) natives h name paramObj (slot_get ob q)) earlier"
    and "deref h (slot_get ob pn) = Some pob" and "truthy (slot_get pob name)"
    and "deref h (slot_get pob name) = Some sob"
  shows "sendAMessageWithParameters_p (Suc (Suc n)) natives h this name paramObj =
       (case evaluate_p n natives (h @ [put_slot (copy_fields sob) ''parameter'' paramObj])
               (VRef (length h)) of
          None \<Rightarrow> None
        | Some (Inl e) \<Rightarrow> Some (Inl e)
        | Some (Inr (res, h')) \<Rightarrow>
            if truthy res then Some (Inr (res, h'))
            else parents_wp
                   (\<lambda>h' parent. sendAMessageWithParameters_p (Suc n) natives h' parent name paramObj)
                   h' ob later)"
proof -
  have nn: "slot_get ob pn \<noteq> VNull" "slot_get ob pn \<noteq> VUndefined"
    using assms(5) by (auto simp: deref_def)
  have hit: "sendAMessageWithParameters_p (Suc n) natives h (slot_get ob pn) name paramObj
      = evaluate_p n natives (h @ [put_slot (copy_fields sob) ''parameter'' paramObj]) (VRef (length h))"
    using assms(5,6,7)
    by (simp add: sendAMessageWithParameters_p_Suc sendAMessageWithParameters_p_body_def
          bind_parameter_eq)
  have "sendAMessageWithParameters_p (Suc (Suc n)) natives h this name paramObj =
      parents_wp (\<lambda>h' parent. sendAMessageWithParameters_p (Suc n) natives h' parent name paramObj)
        h ob (earlier @ pn # later)"
    using assms(1,2,3)
    by (simp add: sendAMessageWithParameters_p_Suc [of "Suc n"] sendAMessageWithParameters_p_body_def)
  also have "\<dots> =
      parents_wp (\<lambda>h' parent. sendAMessageWithParameters_p (Suc n) natives h' parent name paramObj)
        h ob (pn # later)"
    by (rule parents_wp_passed_over [OF assms(4)])
  finally show ?thesis
    using nn hit by (simp split: option.splits sum.splits)
qed

section \<open>The claims\<close>

text \<open>
  C8. An object with a primitive evaluates to a copy: a new reference, different from the
  receiver, to an object with the same primitive (the object that \<open>copy\<close> makes), whatever
  messages, native function, slots or parents the object has; the receiver is unchanged.
  This holds for \<open>evaluate\<close> of SelfObject.js, in both revisions, and of part_000.
\<close>

theorem evaluate_primitive_copy:
  assumes "deref h this = Some ob" and "primitive ob \<noteq> VNull"
  shows "evaluate (Suc n) rv natives h this = Some (Inr (VRef (length h), h @ [copy_fields ob]))
       \<and> evaluate_p (Suc n) natives h this = Some (Inr (VRef (length h), h @ [copy_fields ob]))
       \<and> VRef (length h) \<noteq> this
       \<and> deref (h @ [copy_fields ob]) this = Some ob
       \<and> (\<exists>ob'. deref (h @ [copy_fields ob]) (VRef (length h)) = Some ob'
              \<and> primitive ob' = primitive ob)"
  using assms
  by (auto simp: evaluate_Suc evaluate_p_Suc evaluate_body_def evaluate_p_body_def
        deref_Some_iff deref_VRef copy_eq nth_append)

theorem evaluate_primitive_copy_witness:
  "deref [busy] (VRef 0) = Some busy \<and> primitive busy \<noteq> VNull
   \<and> evaluate (Suc 0) Rev1 example_natives [busy] (VRef 0) = Some (Inr (VRef 1, [busy, busy]))
   \<and> evaluate_p (Suc 0) example_natives [busy] (VRef 0) = Some (Inr (VRef 1, [busy, busy]))"
  using evaluate_primitive_copy [of "[busy]" "VRef 0" busy 0 Rev1 example_natives]
  by (simp add: deref_VRef busy_def copy_fields_def)

text \<open>
  What does hold of \<open>makeParent\<close>: it changes the store only when the lookup of the name
  yields a truthy value, and then it does nothing but add the name to the receiver's
  parents; and for a name that is neither a slot of the object nor a property of
  \<open>Object.prototype\<close> it returns the store as it is.
\<close>

lemma makeParent_changes:
  assumes "r < length h" and "makeParent h r name \<noteq> h"
  shows "truthy (slot_get (h ! r) name) \<and> name \<notin> set (parents (h ! r))
       \<and> makeParent h r name = h[r := (h ! r)\<lparr>parents := parents (h ! r) @ [name]\<rparr>]"
  using assms by (auto simp: makeParent_def set_add_def split: if_splits)

lemma makeParent_ordinary_name:
  assumes "r < length h" and "map_of (slots (h ! r)) name = None"
    and "name \<notin> set object_prototype_names"
  shows "makeParent h r name = h"
  using assms by (simp add: makeParent_def slot_get_def property_get_def)

text \<open>
  C9. \<open>makeParent\<close> tests \<open>this.slots[name]\<close>, and for a name that \<open>Object.prototype\<close>
  provides the test succeeds although the object has no slot of that name. A new object has
  no slot \<open>toString\<close>; \<open>makeParent\<close> adds \<open>toString\<close> to its parents all the same, on the
  store of records and on the memory. From then on a dispatch of a name the object does not
  have meets the inherited function among the parents and fails with a TypeError.
\<close>

theorem makeParent_inherited_name:
  "map_of (slots new_object) ''toString'' = None
   \<and> slot_get new_object ''toString'' = VHost
   \<and> makeParent [new_object] 0 ''toString'' = [new_object\<lparr>parents := [''toString'']\<rparr>]
   \<and> view (makeParent_m (snd (construct empty_memory)) 0 ''toString'')
        = [new_object\<lparr>parents := [''toString'']\<rparr>]
   \<and> sendAMessage 1 Rev1 example_natives [new_object\<lparr>parents := [''toString'']\<rparr>] (VRef 0) ''x''
        = Some (Inl (TypeError, [new_object\<lparr>parents := [''toString'']\<rparr>]))"
  by code_simp

text \<open>
  An object that holds the containers of the receiver is no copy: in \<open>example_memory\<close> a
  slot assigned through such an object appears in object 0.
\<close>

lemma aliasing_copy_shares:
  "\<not> separate (snd (aliasing_copy example_memory 0))
   \<and> map_option (\<lambda>m2. slots (view m2 ! 0))
        (assignSlot_m (snd (aliasing_copy example_memory 0)) 2 ''new'' (VNum 9))
       = Some [(''b'', VRef 1), (''new'', VNum 9)]
   \<and> slots (view example_memory ! 0) = [(''b'', VRef 1)]"
  by code_simp

text \<open>
  C6. \<open>copy\<close> on the memory. In a memory where no container is held by two objects,
  \<open>copy\<close> of the object \<open>r\<close> returns a new reference \<open>c\<close>, and again no container is
  held by two objects: the plain object, the \<open>Set\<close> and the array of \<open>c\<close> are not those
  of \<open>r\<close>. They have the content of those of \<open>r\<close>: the same own properties in \<open>slots\<close>
  (with \<open>Object.prototype\<close> as the prototype), the same parents, the same messages; the
  primitive and the native function are equal. Every object that existed reads as before.
  \<open>assignSlot\<close>, \<open>makeParent\<close> and \<open>messages.push\<close> through \<open>c\<close> take effect on
  \<open>c\<close> and leave every object that existed as it was; through \<open>r\<close> they take effect on
  \<open>r\<close> and leave \<open>c\<close> as it was. A slot of \<open>r\<close> bound to a reference \<open>s\<close> is bound to
  the same \<open>s\<close> in \<open>c\<close>, and an assignment to a slot of the object \<open>s\<close> takes effect on
  the one object that both refer to.
\<close>

theorem copy_independent:
  assumes "separate m" and "r < length (instances m)" and "copy_m m r = (c, m1)"
  shows "c = length (instances m) \<and> c \<noteq> r \<and> separate m1
       \<and> slots_ref (instances m1 ! c) \<noteq> slots_ref (instances m1 ! r)
       \<and> parents_ref (instances m1 ! c) \<noteq> parents_ref (instances m1 ! r)
       \<and> messages_ref (instances m1 ! c) \<noteq> messages_ref (instances m1 ! r)
       \<and> take c (view m1) = view m
       \<and> slots (view m1 ! c) = slots (view m ! r) \<and> slots_proto (view m1 ! c) = ObjectProto
       \<and> parents (view m1 ! c) = parents (view m ! r)
       \<and> messages (view m1 ! c) = messages (view m ! r)
       \<and> primitive (view m1 ! c) = primitive (view m ! r)
       \<and> primitiveFn (view m1 ! c) = primitiveFn (view m ! r)
       \<and> (assignSlot_m m1 c name v = Some m2 \<longrightarrow>
            set_slot (view m1 ! c) name v = Some (view m2 ! c) \<and> take c (view m2) = view m)
       \<and> parents (view (makeParent_m m1 c name) ! c) =
            (if truthy (slot_get (view m1 ! c) name) then set_add name (parents (view m ! r))
             else parents (view m ! r))
       \<and> take c (view (makeParent_m m1 c name)) = view m
       \<and> messages (view (push_message_m m1 c name) ! c) = messages (view m ! r) @ [name]
       \<and> take c (view (push_message_m m1 c name)) = view m
       \<and> (assignSlot_m m1 r name v = Some m2 \<longrightarrow>
            set_slot (view m ! r) name v = Some (view m2 ! r) \<and> view m2 ! c = view m1 ! c)
       \<and> parents (view (makeParent_m m1 r name) ! r) =
            (if truthy (slot_get (view m ! r) name) then set_add name (parents (view m ! r))
             else parents (view m ! r))
       \<and> view (makeParent_m m1 r name) ! c = view m1 ! c
       \<and> messages (view (push_message_m m1 r name) ! r) = messages (view m ! r) @ [name]
       \<and> view (push_message_m m1 r name) ! c = view m1 ! c
       \<and> (map_of (slots (view m ! r)) k = Some (VRef s) \<and> s < c \<and> s \<noteq> r
            \<and> assignSlot_m m1 s name v = Some m2 \<longrightarrow>
              map_of (slots (view m2 ! r)) k = Some (VRef s)
            \<and> map_of (slots (view m2 ! c)) k = Some (VRef s)
            \<and> set_slot (view m ! s) name v = Some (view m2 ! s))"
proof -
  note cv = copy_m_view [OF assms]
  have sep: "separate m1" using assms by (rule separate_copy_m)
  have c: "c = length (instances m)" by (rule cv(1))
  then have cr: "c \<noteq> r" using assms(2) by simp
  have len: "length (instances m1) = Suc c" using cv(2) c by (metis length_view length_append_singleton)
  have v1: "view m1 = view m @ [copy_fields (view m ! r)]" by (rule cv(2))
  have lv: "length (view m) = c" using c by simp
  have refs: "slots_ref (instances m1 ! c) \<noteq> slots_ref (instances m1 ! r)"
    "parents_ref (instances m1 ! c) \<noteq> parents_ref (instances m1 ! r)"
    "messages_ref (instances m1 ! c) \<noteq> messages_ref (instances m1 ! r)"
    using separate_refs [OF sep, of c r] len assms(2) c by simp_all
  have tk: "take c (view m1) = view m" by (metis v1 lv append_eq_conv_conj)
  have vc: "view m1 ! c = copy_fields (view m ! r)" by (metis v1 lv nth_append_length)
  have vr: "view m1 ! r = view m ! r" using v1 lv assms(2) c by (simp add: nth_append)
  have a1: "assignSlot_m m1 c name v = Some m2 \<longrightarrow>
            set_slot (view m1 ! c) name v = Some (view m2 ! c) \<and> take c (view m2) = view m"
  proof
    assume "assignSlot_m m1 c name v = Some m2"
    then have "assignSlot (view m1) c name v = Some (view m2)"
      using view_assignSlot_m [OF sep, of c name v] by simp
    from assignSlot_Some [OF this] len tk
    show "set_slot (view m1 ! c) name v = Some (view m2 ! c) \<and> take c (view m2) = view m"
      by (metis length_view lessI take_update_cancel order_refl)
  qed
  have mp: "view (makeParent_m m1 x name) = makeParent (view m1) x name" for x
    by (rule view_makeParent_m [OF sep])
  have pm: "view (push_message_m m1 x name) = push_message (view m1) x name" for x
    by (rule view_push_message_m [OF sep])
  have a2: "parents (view (makeParent_m m1 c name) ! c) =
            (if truthy (slot_get (view m1 ! c) name) then set_add name (parents (view m ! r))
             else parents (view m ! r))"
    using vc len by (simp add: mp makeParent_def)
  have a3: "take c (view (makeParent_m m1 c name)) = view m"
    using tk by (simp add: mp makeParent_def)
  have a4: "messages (view (push_message_m m1 c name) ! c) = messages (view m ! r) @ [name]"
    using vc len by (simp add: pm push_message_def)
  have a5: "take c (view (push_message_m m1 c name)) = view m"
    using tk by (simp add: pm push_message_def)
  have b1: "assignSlot_m m1 r name v = Some m2 \<longrightarrow>
            set_slot (view m ! r) name v = Some (view m2 ! r) \<and> view m2 ! c = view m1 ! c"
  proof
    assume "assignSlot_m m1 r name v = Some m2"
    then have "assignSlot (view m1) r name v = Some (view m2)"
      using view_assignSlot_m [OF sep, of r name v] by simp
    from assignSlot_Some [OF this] len assms(2) c vr cr
    show "set_slot (view m ! r) name v = Some (view m2 ! r) \<and> view m2 ! c = view m1 ! c"
      by (metis length_view less_Suc_eq nth_list_update_neq)
  qed
  have b2: "parents (view (makeParent_m m1 r name) ! r) =
            (if truthy (slot_get (view m ! r) name) then set_add name (parents (view m ! r))
             else parents (view m ! r))"
    using vr assms(2) len c by (simp add: mp makeParent_def)
  have b3: "view (makeParent_m m1 r name) ! c = view m1 ! c"
    using cr by (simp add: mp makeParent_def)
  have b4: "messages (view (push_message_m m1 r name) ! r) = messages (view m ! r) @ [name]"
    using vr assms(2) len c by (simp add: pm push_message_def)
  have b5: "view (push_message_m m1 r name) ! c = view m1 ! c"
    using cr by (simp add: pm push_message_def)
  have sh: "map_of (slots (view m ! r)) k = Some (VRef s) \<and> s < c \<and> s \<noteq> r
            \<and> assignSlot_m m1 s name v = Some m2 \<longrightarrow>
              map_of (slots (view m2 ! r)) k = Some (VRef s)
            \<and> map_of (slots (view m2 ! c)) k = Some (VRef s)
            \<and> set_slot (view m ! s) name v = Some (view m2 ! s)"
  proof
    assume h: "map_of (slots (view m ! r)) k = Some (VRef s) \<and> s < c \<and> s \<noteq> r
            \<and> assignSlot_m m1 s name v = Some m2"
    then have "assignSlot (view m1) s name v = Some (view m2)"
      using view_assignSlot_m [OF sep, of s name v] by simp
    moreover have sl: "s < length (view m1)" using h len by simp
    ultimately have st: "set_slot (view m1 ! s) name v = Some (view m2 ! s)"
      and up: "view m2 = (view m1)[s := view m2 ! s]"
      by (rule assignSlot_Some)+
    have "view m1 ! s = view m ! s" using v1 lv h by (simp add: nth_append)
    moreover have "view m2 ! r = view m ! r"
      using up h vr by (metis nth_list_update_neq)
    moreover have "view m2 ! c = copy_fields (view m ! r)"
      using up h vc by (metis nth_list_update_neq less_irrefl)
    ultimately show "map_of (slots (view m2 ! r)) k = Some (VRef s)
            \<and> map_of (slots (view m2 ! c)) k = Some (VRef s)
            \<and> set_slot (view m ! s) name v = Some (view m2 ! s)"
      using h st by simp
  qed
  have f: "slots (view m1 ! c) = slots (view m ! r)" "slots_proto (view m1 ! c) = ObjectProto"
    "parents (view m1 ! c) = parents (view m ! r)"
    "messages (view m1 ! c) = messages (view m ! r)" "primitive (view m1 ! c) = primitive (view m ! r)"
    "primitiveFn (view m1 ! c) = primitiveFn (view m ! r)"
    using vc by simp_all
  show ?thesis
    using c cr sep refs tk f a1 a2 a3 a4 a5 b1 b2 b3 b4 b5 sh by blast
qed

theorem copy_independent_witness:
  "separate example_memory \<and> (0::nat) < length (instances example_memory)
   \<and> copy_m example_memory 0 = (2, snd (copy_m example_memory 0))
   \<and> slots_ref (instances (snd (copy_m example_memory 0)) ! 2) = 3
   \<and> slots_ref (instances (snd (copy_m example_memory 0)) ! 0) = 0
   \<and> take 2 (view (snd (copy_m example_memory 0))) = view example_memory
   \<and> slots (view (snd (copy_m example_memory 0)) ! 2) = [(''b'', VRef 1)]
   \<and> map_option (\<lambda>m2. (slots (view m2 ! 2), take 2 (view m2) = view example_memory))
        (assignSlot_m (snd (copy_m example_memory 0)) 2 ''new'' (VNum 9))
       = Some ([(''b'', VRef 1), (''new'', VNum 9)], True)
   \<and> map_option (\<lambda>m2. (slots (view m2 ! 0), view m2 ! 2 = view (snd (copy_m example_memory 0)) ! 2))
        (assignSlot_m (snd (copy_m example_memory 0)) 0 ''new'' (VNum 9))
       = Some ([(''b'', VRef 1), (''new'', VNum 9)], True)
   \<and> map_option (\<lambda>m2. (map_of (slots (view m2 ! 0)) ''b'', map_of (slots (view m2 ! 2)) ''b'',
                        slots (view m2 ! 1)))
        (assignSlot_m (snd (copy_m example_memory 0)) 1 ''new'' (VNum 9))
       = Some (Some (VRef 1), Some (VRef 1), [(''new'', VNum 9)])"
proof -
  let ?m1 = "snd (copy_m example_memory 0)"
  have a: "separate example_memory" by code_simp
  have b: "(0::nat) < length (instances example_memory)" by code_simp
  have c: "copy_m example_memory 0 = (2, ?m1)" by code_simp
  obtain x where x: "assignSlot_m ?m1 2 ''new'' (VNum 9) = Some x"
    by (cases "assignSlot_m ?m1 2 ''new'' (VNum 9)") (simp_all, code_simp)
  obtain y where y: "assignSlot_m ?m1 0 ''new'' (VNum 9) = Some y"
    by (cases "assignSlot_m ?m1 0 ''new'' (VNum 9)") (simp_all, code_simp)
  obtain z where z: "assignSlot_m ?m1 1 ''new'' (VNum 9) = Some z"
    by (cases "assignSlot_m ?m1 1 ''new'' (VNum 9)") (simp_all, code_simp)
  have k: "map_of (slots (view example_memory ! 0)) ''b'' = Some (VRef 1)" by code_simp
  have t: "take 2 (view ?m1) = view example_memory"
    and tx: "take 2 (view x) = view example_memory"
    using copy_independent [OF a b c, of "''new''" "VNum 9" x] x by blast+
  have yc: "view y ! 2 = view ?m1 ! 2"
    using copy_independent [OF a b c, of "''new''" "VNum 9" y] y by blast
  have zs: "map_of (slots (view z ! 0)) ''b'' = Some (VRef 1)"
       "map_of (slots (view z ! 2)) ''b'' = Some (VRef 1)"
    using copy_independent [OF a b c, of "''new''" "VNum 9" z "''b''" 1] z k by simp_all
  have e1: "slots_ref (instances ?m1 ! 2) = 3" by code_simp
  have e2: "slots_ref (instances ?m1 ! 0) = 0" by code_simp
  have e3: "slots (view ?m1 ! 2) = [(''b'', VRef 1)]" by code_simp
  have e4: "map_option (\<lambda>m2. slots (view m2 ! 2)) (assignSlot_m ?m1 2 ''new'' (VNum 9))
      = Some [(''b'', VRef 1), (''new'', VNum 9)]" by code_simp
  have e5: "map_option (\<lambda>m2. slots (view m2 ! 0)) (assignSlot_m ?m1 0 ''new'' (VNum 9))
      = Some [(''b'', VRef 1), (''new'', VNum 9)]" by code_simp
  have e6: "map_option (\<lambda>m2. slots (view m2 ! 1)) (assignSlot_m ?m1 1 ''new'' (VNum 9))
      = Some [(''new'', VNum 9)]" by code_simp
  from a b c t tx yc zs e1 e2 e3 e4 e5 e6 x y z show ?thesis by simp
qed

text \<open>
  C4, as the code has it. An object with no primitive and a native function evaluates to
  exactly what the native function produces. The first revision of SelfObject.js (line 27)
  calls it with the object itself and the value of the object's \<open>parameter\<close> slot
  (\<open>undefined\<close> when the slot is not set); the second revision (line 184) calls it with
  the object alone; part_000 (line 32) calls it with a fresh copy of the object alone.
\<close>

theorem evaluate_native:
  assumes "deref h this = Some ob" and "primitive ob = VNull" and "primitiveFn ob = Some f"
  shows "evaluate (Suc n) Rev1 natives h this =
           (case natives f h this
                   (case map_of (slots ob) ''parameter'' of None \<Rightarrow> VUndefined | Some v \<Rightarrow> v) of
              Inl (e, fresh) \<Rightarrow> Some (Inl (e, h @ fresh))
            | Inr (v, fresh) \<Rightarrow> Some (Inr (v, h @ fresh)))
       \<and> evaluate (Suc n) Rev2 natives h this =
           (case natives f h this VUndefined of
              Inl (e, fresh) \<Rightarrow> Some (Inl (e, h @ fresh))
            | Inr (v, fresh) \<Rightarrow> Some (Inr (v, h @ fresh)))
       \<and> evaluate_p (Suc n) natives h this =
           (case natives f (h @ [copy_fields ob]) (VRef (length h)) VUndefined of
              Inl (e, fresh) \<Rightarrow> Some (Inl (e, h @ [copy_fields ob] @ fresh))
            | Inr (v, fresh) \<Rightarrow> Some (Inr (v, h @ [copy_fields ob] @ fresh)))"
  using assms
  by (simp add: evaluate_Suc evaluate_p_Suc evaluate_body_def evaluate_p_body_def
        call_native_def slot_get_parameter copy_eq split: sum.splits)

theorem evaluate_native_witness:
  "deref with_parameter (VRef 0) = Some (with_parameter ! 0)
   \<and> primitive (with_parameter ! 0) = VNull \<and> primitiveFn (with_parameter ! 0) = Some 1
   \<and> map_of (slots (with_parameter ! 0)) ''parameter'' = Some (VNum 7)
   \<and> evaluate (Suc 0) Rev1 example_natives with_parameter (VRef 0) = Some (Inr (VNum 7, with_parameter))
   \<and> evaluate (Suc 0) Rev2 example_natives with_parameter (VRef 0)
       = Some (Inr (VUndefined, with_parameter))
   \<and> evaluate_p (Suc 0) example_natives with_parameter (VRef 0)
       = Some (Inr (VUndefined, with_parameter @ [with_parameter ! 0]))"
proof -
  have a: "deref with_parameter (VRef 0) = Some (with_parameter ! 0)" by code_simp
  have b: "primitive (with_parameter ! 0) = VNull" by code_simp
  have c: "primitiveFn (with_parameter ! 0) = Some 1" by code_simp
  have d: "map_of (slots (with_parameter ! 0)) ''parameter'' = Some (VNum 7)" by code_simp
  have k: "copy_fields (with_parameter ! 0) = with_parameter ! 0" by code_simp
  from evaluate_native [OF a b c, of 0 example_natives] a b c d k
  show ?thesis by (simp add: example_natives_def second_arg_def)
qed

text \<open>
  C4 as stated fails on the second revision and on part_000. The native function that
  returns its second argument, on an object whose \<open>parameter\<close> slot holds 7: called with
  the object and the slot's value it yields 7, the second revision's \<open>evaluate\<close> yields
  \<open>undefined\<close>. The native function that returns its first argument: called with the
  object itself it yields the object, \<open>evaluate\<close> of part_000 yields a new copy.
\<close>

theorem evaluate_native_counterexample:
  "evaluate (Suc 0) Rev2 example_natives with_parameter (VRef 0) = Some (Inr (VUndefined, with_parameter))
   \<and> call_native example_natives 1 with_parameter (VRef 0) (slot_get (with_parameter ! 0) ''parameter'')
       = Some (Inr (VNum 7, with_parameter))
   \<and> evaluate_p (Suc 0) example_natives returns_self (VRef 0)
       = Some (Inr (VRef 1, returns_self @ [returns_self ! 0]))
   \<and> call_native example_natives 2 returns_self (VRef 0) (slot_get (returns_self ! 0) ''parameter'')
       = Some (Inr (VRef 0, returns_self))"
  by (simp add: evaluate_Suc evaluate_p_Suc evaluate_body_def evaluate_p_body_def
        example_defs deref_VRef call_native_def slot_get_parameter copy_eq copy_fields_def)

text \<open>
  C1, as the code has it. For an object with no primitive, no native function and at least
  one message: \<open>evaluate\<close> of SelfObject.js (both revisions) returns \<open>res\<close> exactly when the
  messages, sent in order, the first to the new copy of the object and each further one to
  the result of the one before, all have truthy results and \<open>res\<close> is the last of them.
  \<open>evaluate\<close> of part_000 returns \<open>res\<close> exactly when the messages, all sent to the copy,
  have results and \<open>res\<close> is the last of them.
\<close>

theorem evaluate_threads_messages:
  assumes "deref h this = Some ob" and "primitive ob = VNull" and "primitiveFn ob = None"
    and "messages ob \<noteq> []"
  shows "(evaluate (Suc n) rv natives h this = Some (Inr (res, hF)) \<longleftrightarrow>
            threads (sendAMessage n rv natives) (h @ [copy_fields ob]) (VRef (length h))
              (messages ob) res hF)
       \<and> (evaluate_p (Suc n) natives h this = Some (Inr (res, hF)) \<longleftrightarrow>
            all_to_copy (sendAMessage_p n natives) (VRef (length h)) (h @ [copy_fields ob])
              (messages ob) res hF)"
  using assms
  by (simp add: evaluate_Suc evaluate_p_Suc evaluate_body_def evaluate_p_body_def copy_eq
        chain_threads chain_p_all_to_copy)

theorem evaluate_threads_messages_witness:
  "deref chained (VRef 0) = Some (chained ! 0)
   \<and> primitive (chained ! 0) = VNull \<and> primitiveFn (chained ! 0) = None
   \<and> messages (chained ! 0) = [''b'', ''c'']
   \<and> evaluate (Suc 2) Rev1 example_natives chained (VRef 0)
       = Some (Inr (VRef 4, chained @ [chained ! 0, chained ! 2]))
   \<and> threads (sendAMessage 2 Rev1 example_natives) (chained @ [chained ! 0]) (VRef (length chained))
       (messages (chained ! 0)) (VRef 4) (chained @ [chained ! 0, chained ! 2])
   \<and> sendAMessage 2 Rev1 example_natives (chained @ [chained ! 0]) (VRef 3) ''b''
       = Some (Inr (VRef 1, chained @ [chained ! 0]))
   \<and> sendAMessage 2 Rev1 example_natives (chained @ [chained ! 0]) (VRef 1) ''c''
       = Some (Inr (VRef 4, chained @ [chained ! 0, chained ! 2]))"
proof -
  have a: "deref chained (VRef 0) = Some (chained ! 0)" by code_simp
  have b: "primitive (chained ! 0) = VNull" by code_simp
  have c: "primitiveFn (chained ! 0) = None" by code_simp
  have d: "messages (chained ! 0) = [''b'', ''c'']" by code_simp
  then have d': "messages (chained ! 0) \<noteq> []" by simp
  have e: "evaluate (Suc 2) Rev1 example_natives chained (VRef 0)
       = Some (Inr (VRef 4, chained @ [chained ! 0, chained ! 2]))" by code_simp
  have f: "sendAMessage 2 Rev1 example_natives (chained @ [chained ! 0]) (VRef 3) ''b''
       = Some (Inr (VRef 1, chained @ [chained ! 0]))" by code_simp
  have g: "sendAMessage 2 Rev1 example_natives (chained @ [chained ! 0]) (VRef 1) ''c''
       = Some (Inr (VRef 4, chained @ [chained ! 0, chained ! 2]))" by code_simp
  have k: "copy_fields (chained ! 0) = chained ! 0" by code_simp
  from evaluate_threads_messages [OF a b c d', of 2 Rev1 example_natives "VRef 4"
      "chained @ [chained ! 0, chained ! 2]"] e k
  have "threads (sendAMessage 2 Rev1 example_natives) (chained @ [chained ! 0]) (VRef (length chained))
       (messages (chained ! 0)) (VRef 4) (chained @ [chained ! 0, chained ! 2])"
    by simp
  with a b c d e f g show ?thesis by simp
qed

text \<open>
  C1 as stated fails on part_000. In \<open>chained\<close> the first message \<open>b\<close> yields object 1, and
  \<open>c\<close> sent to object 1 would yield a copy of the boxed 7 (reference 4); \<open>evaluate\<close> of
  part_000 sends \<open>c\<close> to the copy of object 0, which has no slot \<open>c\<close>, and returns \<open>null\<close>.
\<close>

theorem evaluate_threads_messages_counterexample:
  "evaluate_p 3 example_natives chained (VRef 0) = Some (Inr (VNull, chained @ [chained ! 0]))
   \<and> sendAMessage_p 2 example_natives (chained @ [chained ! 0]) (VRef 3) ''b'' []
       = Some (Inr (VRef 1, chained @ [chained ! 0], []))
   \<and> sendAMessage_p 2 example_natives (chained @ [chained ! 0]) (VRef 1) ''c'' []
       = Some (Inr (VRef 4, chained @ [chained ! 0, chained ! 2], []))
   \<and> sendAMessage_p 2 example_natives (chained @ [chained ! 0]) (VRef 3) ''c'' []
       = Some (Inr (VNull, chained @ [chained ! 0], [VRef 3]))"
  by code_simp

text \<open>
  C2, as the code has it. \<open>evaluate\<close> of SelfObject.js (both revisions): when the messages
  \<open>before\<close> have been threaded through to \<open>receiver\<close> and the next message \<open>msg\<close> sent to
  \<open>receiver\<close> has a result that is not truthy (\<open>null\<close> when nothing matches), \<open>evaluate\<close>
  throws \<open>MessageNotFound msg\<close>, whatever the messages \<open>after\<close> are; it returns no value.
\<close>

theorem missing_message_throws:
  assumes "deref h this = Some ob" and "primitive ob = VNull" and "primitiveFn ob = None"
    and "messages ob = before @ msg # after"
    and "before = [] \<and> receiver = VRef (length h) \<and> h1 = h @ [copy_fields ob]
         \<or> threads (sendAMessage n rv natives) (h @ [copy_fields ob]) (VRef (length h)) before
              receiver h1"
    and "sendAMessage n rv natives h1 receiver msg = Some (Inr (res, h2))" and "\<not> truthy res"
  shows "evaluate (Suc n) rv natives h this = Some (Inl (MessageNotFound msg, h2))"
proof -
  have "chain (sendAMessage n rv natives) (h @ [copy_fields ob]) (VRef (length h)) VNull
          (before @ msg # after)
        = Some (Inl (MessageNotFound msg, h2))"
    using assms(5)
  proof
    assume "before = [] \<and> receiver = VRef (length h) \<and> h1 = h @ [copy_fields ob]"
    then show ?thesis using assms(6,7) by simp
  next
    assume "threads (sendAMessage n rv natives) (h @ [copy_fields ob]) (VRef (length h)) before
              receiver h1"
    then show ?thesis using assms(6,7) by (simp add: chain_after_threads)
  qed
  then show ?thesis
    using assms(1-4) by (simp add: evaluate_Suc evaluate_body_def copy_eq)
qed

theorem missing_message_throws_witness:
  "deref broken_chain (VRef 0) = Some (broken_chain ! 0)
   \<and> primitive (broken_chain ! 0) = VNull \<and> primitiveFn (broken_chain ! 0) = None
   \<and> messages (broken_chain ! 0) = [''b''] @ ''nope'' # [''b'']
   \<and> threads (sendAMessage 1 Rev1 example_natives) (broken_chain @ [broken_chain ! 0])
       (VRef (length broken_chain)) [''b''] (VRef 1) (broken_chain @ [broken_chain ! 0])
   \<and> sendAMessage 1 Rev1 example_natives (broken_chain @ [broken_chain ! 0]) (VRef 1) ''nope''
       = Some (Inr (VNull, broken_chain @ [broken_chain ! 0]))
   \<and> evaluate (Suc 1) Rev1 example_natives broken_chain (VRef 0)
       = Some (Inl (MessageNotFound ''nope'', broken_chain @ [broken_chain ! 0]))"
proof -
  have a: "deref broken_chain (VRef 0) = Some (broken_chain ! 0)" by code_simp
  have b: "primitive (broken_chain ! 0) = VNull" by code_simp
  have c: "primitiveFn (broken_chain ! 0) = None" by code_simp
  have d: "messages (broken_chain ! 0) = [''b''] @ ''nope'' # [''b'']" by code_simp
  have e: "threads (sendAMessage 1 Rev1 example_natives) (broken_chain @ [broken_chain ! 0])
       (VRef (length broken_chain)) [''b''] (VRef 1) (broken_chain @ [broken_chain ! 0])"
    by code_simp
  have f: "sendAMessage 1 Rev1 example_natives (broken_chain @ [broken_chain ! 0]) (VRef 1) ''nope''
       = Some (Inr (VNull, broken_chain @ [broken_chain ! 0]))" by code_simp
  have g: "\<not> truthy VNull" by simp
  have k: "copy_fields (broken_chain ! 0) = broken_chain ! 0" by code_simp
  from e have e': "threads (sendAMessage 1 Rev1 example_natives)
       (broken_chain @ [copy_fields (broken_chain ! 0)])
       (VRef (length broken_chain)) [''b''] (VRef 1) (broken_chain @ [broken_chain ! 0])"
    by (simp only: k)
  from missing_message_throws [OF a b c d disjI2 [OF e'] f g] a b c d e f
  show ?thesis by simp
qed

text \<open>
  C2 as stated fails on part_000, whose loop has no throw. In \<open>broken_chain\<close> the message
  \<open>nope\<close> finds nothing (the result is \<open>null\<close>), the loop goes on to the third message, and
  \<open>evaluate\<close> returns its result, object 1.
\<close>

theorem missing_message_throws_counterexample:
  "evaluate_p 3 example_natives broken_chain (VRef 0)
     = Some (Inr (VRef 1, broken_chain @ [broken_chain ! 0]))
   \<and> sendAMessage_p 2 example_natives (broken_chain @ [broken_chain ! 0]) (VRef 2) ''nope'' []
       = Some (Inr (VNull, broken_chain @ [broken_chain ! 0], [VRef 2]))"
  by code_simp

text \<open>
  C3, as the code has it. \<open>sendAMessage\<close> of SelfObject.js (both revisions), when the
  receiver's own slot \<open>name\<close> is not truthy, searches the parent graph in level order; and
  the first parent in declaration order that has the slot wins, whatever the parents
  declared after it and all grandparents hold (the parents declared before it being passed
  over).
\<close>

theorem sendAMessage_breadth_first:
  assumes "deref h this = Some ob" and "\<not> truthy (slot_get ob name)"
  shows "sendAMessage n rv natives h this name =
           (case level_order h name [] (map (slot_get ob) (parents ob)) of
              Inl e \<Rightarrow> Some (Inl (e, h))
            | Inr (Some v, visited) \<Rightarrow> evaluate n rv natives h v
            | Inr (None, visited) \<Rightarrow> Some (Inr (VNull, h)))
       \<and> (map (slot_get ob) (parents ob) = earlier @ p # later
            \<and> list_all (misses h name) earlier
            \<and> deref h p = Some pob \<and> truthy (slot_get pob name) \<longrightarrow>
          sendAMessage n rv natives h this name = evaluate n rv natives h (slot_get pob name))"
proof -
  have 1: "sendAMessage n rv natives h this name =
           (case level_order h name [] (map (slot_get ob) (parents ob)) of
              Inl e \<Rightarrow> Some (Inl (e, h))
            | Inr (Some v, visited) \<Rightarrow> evaluate n rv natives h v
            | Inr (None, visited) \<Rightarrow> Some (Inr (VNull, h)))"
    using assms by (simp add: sendAMessage_def sendAMessage_body_def bfs_level_order)
  have 2: "sendAMessage n rv natives h this name = evaluate n rv natives h (slot_get pob name)"
    if hit: "map (slot_get ob) (parents ob) = earlier @ p # later"
      "list_all (misses h name) earlier" "deref h p = Some pob" "truthy (slot_get pob name)"
  proof -
    have "\<forall>v\<in>set earlier. misses h name v" using hit(2) by (simp add: list_all_iff)
    then obtain vis where
      "bfs h name [] (earlier @ p # later) = Inr (Some (slot_get pob name), vis)"
      using bfs_first_hit [OF _ _ hit(3,4), of earlier "[]" later] by auto
    then show ?thesis
      using assms hit(1) by (simp add: sendAMessage_def sendAMessage_body_def)
  qed
  from 1 2 show ?thesis by blast
qed

theorem sendAMessage_breadth_first_witness:
  "deref diamond (VRef 0) = Some (diamond ! 0) \<and> \<not> truthy (slot_get (diamond ! 0) ''x'')
   \<and> map (slot_get (diamond ! 0)) (parents (diamond ! 0)) = [VRef 1] @ VRef 2 # []
   \<and> list_all (misses diamond ''x'') [VRef 1]
   \<and> deref diamond (VRef 2) = Some (diamond ! 2) \<and> truthy (slot_get (diamond ! 2) ''x'')
   \<and> truthy (slot_get (diamond ! 3) ''x'')
   \<and> level_order diamond ''x'' [] (map (slot_get (diamond ! 0)) (parents (diamond ! 0)))
       = Inr (Some (VRef 4), [VRef 1, VRef 2])
   \<and> sendAMessage 1 Rev1 example_natives diamond (VRef 0) ''x''
       = evaluate 1 Rev1 example_natives diamond (slot_get (diamond ! 2) ''x'')
   \<and> sendAMessage 1 Rev1 example_natives diamond (VRef 0) ''x''
       = Some (Inr (VRef 6, diamond @ [boxed (VNum 2)]))"
proof -
  have a: "deref diamond (VRef 0) = Some (diamond ! 0)" by code_simp
  have b: "\<not> truthy (slot_get (diamond ! 0) ''x'')" by code_simp
  have c: "map (slot_get (diamond ! 0)) (parents (diamond ! 0)) = [VRef 1] @ VRef 2 # []" by code_simp
  have d: "list_all (misses diamond ''x'') [VRef 1]" by code_simp
  have e: "deref diamond (VRef 2) = Some (diamond ! 2)" by code_simp
  have f: "truthy (slot_get (diamond ! 2) ''x'')" by code_simp
  have g: "truthy (slot_get (diamond ! 3) ''x'')" by code_simp
  have i: "evaluate 1 Rev1 example_natives diamond (slot_get (diamond ! 2) ''x'')
        = Some (Inr (VRef 6, diamond @ [boxed (VNum 2)]))" by code_simp
  have j: "level_order diamond ''x'' [] (map (slot_get (diamond ! 0)) (parents (diamond ! 0)))
       = Inr (Some (VRef 4), [VRef 1, VRef 2])" by code_simp
  from sendAMessage_breadth_first [OF a b, of 1 Rev1 example_natives "[VRef 1]" "VRef 2" "[]"
      "diamond ! 2"] c d e f
  have "sendAMessage 1 Rev1 example_natives diamond (VRef 0) ''x''
       = evaluate 1 Rev1 example_natives diamond (slot_get (diamond ! 2) ''x'')"
    by blast
  with a b c d e f g i j show ?thesis by simp
qed

text \<open>
  C3 as stated fails on part_000, whose search is depth first. In \<open>diamond\<close> the receiver 0
  has the parents 1 and 2; parent 2 has a slot \<open>x\<close> (the boxed 2), parent 1 has none, and
  the grandparent 3, parent of 1, has a slot \<open>x\<close> (the boxed 1). \<open>sendAMessage\<close> of part_000
  answers with a copy of the grandparent's boxed 1, not of the parent's boxed 2.
\<close>

theorem sendAMessage_breadth_first_counterexample:
  "sendAMessage_p 4 example_natives diamond (VRef 0) ''x'' [] =
     Some (Inr (VRef 6, diamond @ [boxed (VNum 1)], [VRef 0, VRef 1]))
   \<and> map (slot_get (diamond ! 0)) (parents (diamond ! 0)) = [VRef 1, VRef 2]
   \<and> slot_get (diamond ! 1) ''x'' = VUndefined
   \<and> slot_get (diamond ! 2) ''x'' = VRef 4
   \<and> map (slot_get (diamond ! 1)) (parents (diamond ! 1)) = [VRef 3]
   \<and> slot_get (diamond ! 3) ''x'' = VRef 5
   \<and> evaluate_p 3 example_natives diamond (VRef 4) = Some (Inr (VRef 6, diamond @ [boxed (VNum 2)]))"
  by code_simp

text \<open>
  C10. A slot whose value is not truthy counts as no slot, although its key is there:
  \<open>makeParent\<close> returns the store as it is; \<open>sendAMessage\<close> of SelfObject.js goes on to
  the search of the parents (and answers \<open>null\<close> when there are none); the search passes
  over an ancestor with such a slot and goes on to its parents; \<open>sendAMessage\<close> of part_000
  goes on to its loop over the parents (and answers \<open>null\<close> when there are none).
\<close>

theorem falsy_slot_is_absent:
  assumes "r < length h" and "map_of (slots (h ! r)) name = Some v" and "\<not> truthy v"
  shows "makeParent h r name = h
       \<and> sendAMessage n rv natives h (VRef r) name =
           (case bfs h name [] (map (slot_get (h ! r)) (parents (h ! r))) of
              Inl e \<Rightarrow> Some (Inl (e, h))
            | Inr (Some w, visited) \<Rightarrow> evaluate n rv natives h w
            | Inr (None, visited) \<Rightarrow> Some (Inr (VNull, h)))
       \<and> (parents (h ! r) = [] \<longrightarrow> sendAMessage n rv natives h (VRef r) name = Some (Inr (VNull, h)))
       \<and> (VRef r \<notin> set visited \<longrightarrow>
            bfs h name visited (VRef r # queue) =
            bfs h name (visited @ [VRef r]) (queue @ map (slot_get (h ! r)) (parents (h ! r))))
       \<and> sendAMessage_p (Suc n) natives h (VRef r) name visited =
           parents_p (sendAMessage_p n natives) h (h ! r) name (set_add (VRef r) visited) (parents (h ! r))
       \<and> (parents (h ! r) = [] \<longrightarrow>
            sendAMessage_p (Suc n) natives h (VRef r) name visited =
              Some (Inr (VNull, h, set_add (VRef r) visited)))"
proof -
  have s: "slot_get (h ! r) name = v" using assms(2) by (rule slot_get_own)
  have d: "deref h (VRef r) = Some (h ! r)" using assms(1) by (simp add: deref_VRef)
  have 1: "makeParent h r name = h" using assms s by (simp add: makeParent_def)
  have 2: "sendAMessage n rv natives h (VRef r) name =
           (case bfs h name [] (map (slot_get (h ! r)) (parents (h ! r))) of
              Inl e \<Rightarrow> Some (Inl (e, h))
            | Inr (Some w, visited) \<Rightarrow> evaluate n rv natives h w
            | Inr (None, visited) \<Rightarrow> Some (Inr (VNull, h)))"
    using assms(3) s d by (simp add: sendAMessage_def sendAMessage_body_def)
  have 3: "parents (h ! r) = [] \<longrightarrow> sendAMessage n rv natives h (VRef r) name = Some (Inr (VNull, h))"
    using 2 by simp
  have 4: "VRef r \<notin> set visited \<longrightarrow>
            bfs h name visited (VRef r # queue) =
            bfs h name (visited @ [VRef r]) (queue @ map (slot_get (h ! r)) (parents (h ! r)))"
    using assms(3) s d by (simp add: set_add_def)
  have 5: "sendAMessage_p (Suc n) natives h (VRef r) name visited =
           parents_p (sendAMessage_p n natives) h (h ! r) name (set_add (VRef r) visited) (parents (h ! r))"
    using assms(3) s d by (simp add: sendAMessage_p_Suc sendAMessage_p_body_def)
  have 6: "parents (h ! r) = [] \<longrightarrow>
            sendAMessage_p (Suc n) natives h (VRef r) name visited =
              Some (Inr (VNull, h, set_add (VRef r) visited))"
    using 5 by simp
  from 1 2 3 4 5 6 show ?thesis by blast
qed

theorem falsy_slot_is_absent_witness:
  "(0::nat) < length falsy_slot \<and> map_of (slots (falsy_slot ! 0)) ''z'' = Some (VNum 0)
   \<and> \<not> truthy (VNum 0)
   \<and> makeParent falsy_slot 0 ''z'' = falsy_slot
   \<and> sendAMessage 1 Rev1 example_natives falsy_slot (VRef 0) ''z'' = Some (Inr (VNull, falsy_slot))
   \<and> sendAMessage 1 Rev1 example_natives falsy_slot (VRef 1) ''z'' = Some (Inr (VNull, falsy_slot))
   \<and> bfs falsy_slot ''z'' [] (VRef 0 # []) = bfs falsy_slot ''z'' ([] @ [VRef 0]) []
   \<and> sendAMessage_p (Suc 1) example_natives falsy_slot (VRef 0) ''z'' []
       = Some (Inr (VNull, falsy_slot, [VRef 0]))"
proof -
  have a: "(0::nat) < length falsy_slot" by code_simp
  have b: "map_of (slots (falsy_slot ! 0)) ''z'' = Some (VNum 0)" by code_simp
  have c: "\<not> truthy (VNum 0)" by simp
  have d: "parents (falsy_slot ! 0) = []" by code_simp
  have e: "sendAMessage 1 Rev1 example_natives falsy_slot (VRef 1) ''z'' = Some (Inr (VNull, falsy_slot))"
    by code_simp
  have f: "set_add (VRef 0) [] = [VRef 0]" by code_simp
  from falsy_slot_is_absent [OF a b c, of 1 Rev1 example_natives "[]" "[]"] a b c d e f
  show ?thesis by simp
qed

text \<open>
  What does hold of the searches. When neither the receiver nor any of its ancestors has a
  truthy value under \<open>name\<close> (the ancestors being objects), whatever cycles and shared
  ancestors the parent graph has: \<open>sendAMessage\<close> of SelfObject.js answers \<open>null\<close>, at
  any fuel, and the \<open>visited\<close> set of its search holds ancestors only; \<open>sendAMessage\<close> of
  part_000 answers \<open>null\<close> once its fuel is the number of objects in the store, and its
  \<open>visited\<close> set holds the receiver and ancestors only.
\<close>

lemma dispatch_without_hit:
  assumes "deref h this = Some ob" and "\<not> truthy (slot_get ob name)"
    and "\<forall>a\<in>ancestors h this. misses h name a"
  shows "sendAMessage n rv natives h this name = Some (Inr (VNull, h))
       \<and> (\<exists>visited. bfs h name [] (map (slot_get ob) (parents ob)) = Inr (None, visited)
             \<and> distinct visited \<and> set visited \<subseteq> ancestors h this)
       \<and> (length h \<le> n \<longrightarrow>
            (\<exists>visited. sendAMessage_p n natives h this name [] = Some (Inr (VNull, h, visited))
               \<and> distinct visited \<and> set visited \<subseteq> insert this (ancestors h this)))"
proof -
  have tr: "\<And>a. a \<in> ancestors h this \<Longrightarrow> truthy a"
    by (erule ancestors.cases) auto
  have pc: "parent_closed h name (ancestors h this)"
    unfolding parent_closed_def using tr assms(3) by (auto intro: ancestors.grandparent)
  have q: "\<forall>v\<in>set (map (slot_get ob) (parents ob)). truthy v \<longrightarrow> v \<in> ancestors h this"
    using assms(1) by (auto intro: ancestors.parent)
  obtain vis where vis: "bfs h name [] (map (slot_get ob) (parents ob)) = Inr (None, vis)"
      "distinct vis" "set vis \<subseteq> ancestors h this"
    using bfs_none [OF pc q, of "[]"] by auto
  then have 1: "sendAMessage n rv natives h this name = Some (Inr (VNull, h))"
    using assms(1,2) by (simp add: sendAMessage_def sendAMessage_body_def)
  let ?S = "insert this (ancestors h this)"
  have "truthy this" using assms(1) by (auto simp: deref_Some_iff)
  moreover have "misses h name this" using assms(1,2) by (simp add: misses_def)
  ultimately have pc': "parent_closed h name ?S"
    using pc assms(1) unfolding parent_closed_def by (auto intro: ancestors.parent)
  have sub: "?S \<subseteq> VRef ` {..<length h}"
  proof
    fix a assume "a \<in> ?S"
    from parent_closed_object [OF pc' this] show "a \<in> VRef ` {..<length h}"
      by (auto simp: deref_Some_iff)
  qed
  then have fin: "finite ?S" by (rule finite_subset) simp
  have "card ?S \<le> card (VRef ` {..<length h})" using sub by (intro card_mono) auto
  also have "\<dots> \<le> length h" by (metis card_image_le card_lessThan finite_lessThan)
  finally have cardS: "card ?S \<le> length h" .
  have 3: "length h \<le> n \<longrightarrow>
            (\<exists>visited. sendAMessage_p n natives h this name [] = Some (Inr (VNull, h, visited))
               \<and> distinct visited \<and> set visited \<subseteq> ?S)"
  proof
    assume "length h \<le> n"
    then have "card (?S - set []) \<le> n" using cardS by simp
    from dfs_none [OF pc' fin _ _ _ _ this, of this natives]
    show "\<exists>visited. sendAMessage_p n natives h this name [] = Some (Inr (VNull, h, visited))
               \<and> distinct visited \<and> set visited \<subseteq> ?S"
      by auto
  qed
  from 1 vis 3 show ?thesis by blast
qed

lemma dispatch_without_hit_example:
  "deref diamond (VRef 0) = Some (diamond ! 0) \<and> \<not> truthy (slot_get (diamond ! 0) ''y'')
   \<and> graph_misses diamond ''y'' \<and> length diamond \<le> 6
   \<and> sendAMessage 6 Rev1 example_natives diamond (VRef 0) ''y'' = Some (Inr (VNull, diamond))
   \<and> bfs diamond ''y'' [] (map (slot_get (diamond ! 0)) (parents (diamond ! 0)))
       = Inr (None, [VRef 1, VRef 2, VRef 3, VRef 0])
   \<and> sendAMessage_p 6 example_natives diamond (VRef 0) ''y'' []
       = Some (Inr (VNull, diamond, [VRef 0, VRef 1, VRef 3, VRef 2]))"
proof -
  have a: "deref diamond (VRef 0) = Some (diamond ! 0)" by code_simp
  have b: "\<not> truthy (slot_get (diamond ! 0) ''y'')" by code_simp
  have c: "graph_misses diamond ''y''" by code_simp
  then have d: "\<forall>a\<in>ancestors diamond (VRef 0). misses diamond ''y'' a"
    by (blast intro: graph_misses_ancestors)
  have l: "length diamond \<le> 6" by code_simp
  from dispatch_without_hit [OF a b d, of 6 Rev1 example_natives] l
  have s: "sendAMessage 6 Rev1 example_natives diamond (VRef 0) ''y'' = Some (Inr (VNull, diamond))"
    and "\<exists>visited. bfs diamond ''y'' [] (map (slot_get (diamond ! 0)) (parents (diamond ! 0)))
            = Inr (None, visited) \<and> distinct visited"
    and "\<exists>visited. sendAMessage_p 6 example_natives diamond (VRef 0) ''y'' []
            = Some (Inr (VNull, diamond, visited)) \<and> distinct visited"
    by blast+
  have e: "bfs diamond ''y'' [] (map (slot_get (diamond ! 0)) (parents (diamond ! 0)))
       = Inr (None, [VRef 1, VRef 2, VRef 3, VRef 0])" by code_simp
  have f: "sendAMessage_p 6 example_natives diamond (VRef 0) ''y'' []
       = Some (Inr (VNull, diamond, [VRef 0, VRef 1, VRef 3, VRef 2]))" by code_simp
  from a b c l s e f show ?thesis by simp
qed


text \<open>
  C7. The lookup \<open>this.slots[name]\<close> also finds what \<open>Object.prototype\<close> provides. In
  \<open>diamond\<close> (a diamond with a cycle) no object has a slot \<open>constructor\<close>, and a dispatch
  of \<open>constructor\<close> does not answer \<open>null\<close>: the receiver's lookup yields the inherited
  function, which has no method \<open>evaluate\<close>, and the dispatch fails with a TypeError, in
  both revisions of SelfObject.js and in part_000.
\<close>

theorem dispatch_inherited_name:
  "list_all (\<lambda>ob. map_of (slots ob) ''constructor'' = None) diamond
   \<and> slot_get (diamond ! 0) ''constructor'' = VHost
   \<and> sendAMessage 1 Rev1 example_natives diamond (VRef 0) ''constructor''
        = Some (Inl (TypeError, diamond))
   \<and> sendAMessage 1 Rev2 example_natives diamond (VRef 0) ''constructor''
        = Some (Inl (TypeError, diamond))
   \<and> sendAMessage_p 2 example_natives diamond (VRef 0) ''constructor'' []
        = Some (Inl (TypeError, diamond))"
  by code_simp

text \<open>
  C5. \<open>sendAMessageWithParameters\<close>, in SelfObject.js and in part_000. At a hit in the
  receiver's own slots the outcome is that of evaluating a new object, allocated at the end
  of the store, which is a copy of the slot's object with \<open>paramObj\<close> in its \<open>parameter\<close>
  slot. In SelfObject.js the same holds for the hit that the breadth-first search finds in
  an ancestor. In part_000 the same holds for a hit in a parent, the parents declared before
  it being passed over: the call returns what the evaluation of that new object returns if
  it is truthy, and goes on with the later parents otherwise; in general the call returns
  what the same call on the first parent that is not passed over returns, if that is truthy
  (so a hit further up is bound and evaluated in the same way, by the call on the ancestor
  that has the slot). Whatever the call does (return or throw, at a hit in the receiver or
  in an ancestor), and any sequence of such calls with any parameters, leaves every object
  that existed before as it was: the store afterwards is the store before with new objects
  appended.
\<close>

theorem parameter_bound_in_copy:
  "(deref h this = Some ob \<and> truthy (slot_get ob name) \<and> deref h (slot_get ob name) = Some sob \<longrightarrow>
      sendAMessageWithParameters n rv natives h this name paramObj =
        evaluate n rv natives
          (h @ [put_slot (copy_fields sob) ''parameter'' paramObj]) (VRef (length h))
    \<and> sendAMessageWithParameters_p (Suc n) natives h this name paramObj =
        evaluate_p n natives
          (h @ [put_slot (copy_fields sob) ''parameter'' paramObj]) (VRef (length h)))
   \<and> (deref h this = Some ob \<and> \<not> truthy (slot_get ob name)
        \<and> bfs h name [] (map (slot_get ob) (parents ob)) = Inr (Some slot, visited)
        \<and> deref h slot = Some sob \<longrightarrow>
      sendAMessageWithParameters n rv natives h this name paramObj =
        evaluate n rv natives
          (h @ [put_slot (copy_fields sob) ''parameter'' paramObj]) (VRef (length h)))
   \<and> (deref h this = Some ob \<and> \<not> truthy (slot_get ob name)
        \<and> parents ob = earlier @ pn # later
        \<and> list_all (\<lambda>q. passed_over (Suc n) natives h name paramObj (slot_get ob q)) earlier
        \<and> deref h (slot_get ob pn) = Some pob \<and> truthy (slot_get pob name)
        \<and> deref h (slot_get pob name) = Some sob \<longrightarrow>
      sendAMessageWithParameters_p (Suc (Suc n)) natives h this name paramObj =
        (case evaluate_p n natives (h @ [put_slot (copy_fields sob) ''parameter'' paramObj])
                (VRef (length h)) of
           None \<Rightarrow> None
         | Some (Inl e) \<Rightarrow> Some (Inl e)
         | Some (Inr (res, h')) \<Rightarrow>
             if truthy res then Some (Inr (res, h'))
             else parents_wp
                    (\<lambda>h' parent. sendAMessageWithParameters_p (Suc n) natives h' parent name paramObj)
                    h' ob later))
   \<and> (deref h this = Some ob \<and> \<not> truthy (slot_get ob name)
        \<and> parents ob = earlier @ pn # later
        \<and> list_all (\<lambda>q. passed_over n natives h name paramObj (slot_get ob q)) earlier
        \<and> slot_get ob pn \<noteq> VNull \<and> slot_get ob pn \<noteq> VUndefined \<longrightarrow>
      sendAMessageWithParameters_p (Suc n) natives h this name paramObj =
        (case sendAMessageWithParameters_p n natives h (slot_get ob pn) name paramObj of
           None \<Rightarrow> None
         | Some (Inl e) \<Rightarrow> Some (Inl e)
         | Some (Inr (res, h')) \<Rightarrow>
             if truthy res then Some (Inr (res, h'))
             else parents_wp
                    (\<lambda>h' parent. sendAMessageWithParameters_p n natives h' parent name paramObj)
                    h' ob later))
   \<and> (sendAMessageWithParameters n rv natives h this name paramObj = Some out \<longrightarrow>
        take (length h) (heap_of out) = h)
   \<and> (sendAMessageWithParameters_p n natives h this name paramObj = Some out \<longrightarrow>
        take (length h) (heap_of out) = h)
   \<and> (calls_in_sequence (sendAMessageWithParameters n rv natives) h calls = Some h' \<longrightarrow>
        take (length h) h' = h)
   \<and> (calls_in_sequence (sendAMessageWithParameters_p n natives) h calls = Some h' \<longrightarrow>
        take (length h) h' = h)"
proof -
  have 1: "deref h this = Some ob \<and> truthy (slot_get ob name) \<and> deref h (slot_get ob name) = Some sob \<longrightarrow>
      sendAMessageWithParameters n rv natives h this name paramObj =
        evaluate n rv natives
          (h @ [put_slot (copy_fields sob) ''parameter'' paramObj]) (VRef (length h))
    \<and> sendAMessageWithParameters_p (Suc n) natives h this name paramObj =
        evaluate_p n natives
          (h @ [put_slot (copy_fields sob) ''parameter'' paramObj]) (VRef (length h))"
    by (simp add: sendAMessageWithParameters_def sendAMessageWithParameters_p_Suc
          sendAMessageWithParameters_p_body_def bind_parameter_eq)
  have 6: "deref h this = Some ob \<and> \<not> truthy (slot_get ob name)
        \<and> bfs h name [] (map (slot_get ob) (parents ob)) = Inr (Some slot, visited)
        \<and> deref h slot = Some sob \<longrightarrow>
      sendAMessageWithParameters n rv natives h this name paramObj =
        evaluate n rv natives
          (h @ [put_slot (copy_fields sob) ''parameter'' paramObj]) (VRef (length h))"
    by (simp add: sendAMessageWithParameters_def bind_parameter_eq)
  have 7: "deref h this = Some ob \<and> \<not> truthy (slot_get ob name)
        \<and> parents ob = earlier @ pn # later
        \<and> list_all (\<lambda>q. passed_over (Suc n) natives h name paramObj (slot_get ob q)) earlier
        \<and> deref h (slot_get ob pn) = Some pob \<and> truthy (slot_get pob name)
        \<and> deref h (slot_get pob name) = Some sob \<longrightarrow>
      sendAMessageWithParameters_p (Suc (Suc n)) natives h this name paramObj =
        (case evaluate_p n natives (h @ [put_slot (copy_fields sob) ''parameter'' paramObj])
                (VRef (length h)) of
           None \<Rightarrow> None
         | Some (Inl e) \<Rightarrow> Some (Inl e)
         | Some (Inr (res, h')) \<Rightarrow>
             if truthy res then Some (Inr (res, h'))
             else parents_wp
                    (\<lambda>h' parent. sendAMessageWithParameters_p (Suc n) natives h' parent name paramObj)
                    h' ob later)"
    using sendAMessageWithParameters_p_parent_hit [of h this ob name earlier pn later n natives
        paramObj pob sob]
    by blast
  have 8: "deref h this = Some ob \<and> \<not> truthy (slot_get ob name)
        \<and> parents ob = earlier @ pn # later
        \<and> list_all (\<lambda>q. passed_over n natives h name paramObj (slot_get ob q)) earlier
        \<and> slot_get ob pn \<noteq> VNull \<and> slot_get ob pn \<noteq> VUndefined \<longrightarrow>
      sendAMessageWithParameters_p (Suc n) natives h this name paramObj =
        (case sendAMessageWithParameters_p n natives h (slot_get ob pn) name paramObj of
           None \<Rightarrow> None
         | Some (Inl e) \<Rightarrow> Some (Inl e)
         | Some (Inr (res, h')) \<Rightarrow>
             if truthy res then Some (Inr (res, h'))
             else parents_wp
                    (\<lambda>h' parent. sendAMessageWithParameters_p n natives h' parent name paramObj)
                    h' ob later)"
    using sendAMessageWithParameters_p_parent_call [of h this ob name earlier pn later n natives
        paramObj]
    by blast
  have 2: "sendAMessageWithParameters n rv natives h this name paramObj = Some out \<longrightarrow>
        take (length h) (heap_of out) = h"
    using prefix_take [OF sendAMessageWithParameters_grows] by blast
  have 3: "sendAMessageWithParameters_p n natives h this name paramObj = Some out \<longrightarrow>
        take (length h) (heap_of out) = h"
    using prefix_take [OF sendAMessageWithParameters_p_grows] by blast
  have 4: "calls_in_sequence (sendAMessageWithParameters n rv natives) h calls = Some h' \<longrightarrow>
        take (length h) h' = h"
  proof
    assume a: "calls_in_sequence (sendAMessageWithParameters n rv natives) h calls = Some h'"
    have "prefix h h'"
      by (rule calls_in_sequence_grows [OF _ a]) (rule sendAMessageWithParameters_grows)
    then show "take (length h) h' = h" by (rule prefix_take)
  qed
  have 5: "calls_in_sequence (sendAMessageWithParameters_p n natives) h calls = Some h' \<longrightarrow>
        take (length h) h' = h"
  proof
    assume a: "calls_in_sequence (sendAMessageWithParameters_p n natives) h calls = Some h'"
    have "prefix h h'"
      by (rule calls_in_sequence_grows [OF _ a]) (rule sendAMessageWithParameters_p_grows)
    then show "take (length h) h' = h" by (rule prefix_take)
  qed
  from 1 6 7 8 2 3 4 5 show ?thesis by blast
qed

text \<open>
  The example of part_000, twice in a row: the number 5 is incremented to 6, then the 6 to
  7; object 1, which holds \<open>addOne\<close>, has no \<open>parameter\<close> slot before and none afterwards.
  Through a parent: object 2 of \<open>inherited_increment\<close> finds \<open>increment\<close> in its parent 0,
  in SelfObject.js and in part_000.
\<close>

theorem parameter_bound_in_copy_witness:
  "sendAMessageWithParameters 2 Rev1 example_natives increment_example (VRef 0) ''increment'' (VRef 0)
       = Some (Inr (VRef 3, increment_example
           @ [(increment_example ! 1)\<lparr>slots := [(''parameter'', VRef 0)]\<rparr>, boxed (VNum 6)]))
   \<and> sendAMessageWithParameters_p 2 example_natives increment_example (VRef 0) ''increment'' (VRef 0)
       = Some (Inr (VRef 4, increment_example
           @ [(increment_example ! 1)\<lparr>slots := [(''parameter'', VRef 0)]\<rparr>,
              (increment_example ! 1)\<lparr>slots := [(''parameter'', VRef 0)]\<rparr>, boxed (VNum 6)]))
   \<and> calls_in_sequence (sendAMessageWithParameters 2 Rev1 example_natives) increment_example
         [(VRef 0, ''increment'', VRef 0), (VRef 0, ''increment'', VRef 3)]
       = Some (increment_example
           @ [(increment_example ! 1)\<lparr>slots := [(''parameter'', VRef 0)]\<rparr>, boxed (VNum 6),
              (increment_example ! 1)\<lparr>slots := [(''parameter'', VRef 3)]\<rparr>, boxed (VNum 7)])
   \<and> calls_in_sequence (sendAMessageWithParameters_p 2 example_natives) increment_example
         [(VRef 0, ''increment'', VRef 0), (VRef 0, ''increment'', VRef 4)]
       = Some (increment_example
           @ [(increment_example ! 1)\<lparr>slots := [(''parameter'', VRef 0)]\<rparr>,
              (increment_example ! 1)\<lparr>slots := [(''parameter'', VRef 0)]\<rparr>, boxed (VNum 6),
              (increment_example ! 1)\<lparr>slots := [(''parameter'', VRef 4)]\<rparr>,
              (increment_example ! 1)\<lparr>slots := [(''parameter'', VRef 4)]\<rparr>, boxed (VNum 7)])
   \<and> slot_get (increment_example ! 1) ''parameter'' = VUndefined
   \<and> sendAMessageWithParameters 2 Rev1 example_natives inherited_increment (VRef 2) ''increment'' (VRef 0)
       = evaluate 2 Rev1 example_natives
           (inherited_increment @ [(inherited_increment ! 1)\<lparr>slots := [(''parameter'', VRef 0)]\<rparr>])
           (VRef 3)
   \<and> sendAMessageWithParameters_p 3 example_natives inherited_increment (VRef 2) ''increment'' (VRef 0)
       = Some (Inr (VRef 5, inherited_increment
           @ [(inherited_increment ! 1)\<lparr>slots := [(''parameter'', VRef 0)]\<rparr>,
              (inherited_increment ! 1)\<lparr>slots := [(''parameter'', VRef 0)]\<rparr>, boxed (VNum 6)]))"
proof -
  let ?o1 = "Inr (VRef 3, increment_example
           @ [(increment_example ! 1)\<lparr>slots := [(''parameter'', VRef 0)]\<rparr>, boxed (VNum 6)])"
  let ?o2 = "Inr (VRef 4, increment_example
           @ [(increment_example ! 1)\<lparr>slots := [(''parameter'', VRef 0)]\<rparr>,
              (increment_example ! 1)\<lparr>slots := [(''parameter'', VRef 0)]\<rparr>, boxed (VNum 6)])"
  let ?c1 = "[(VRef 0, ''increment'', VRef 0), (VRef 0, ''increment'', VRef 3)]"
  let ?c2 = "[(VRef 0, ''increment'', VRef 0), (VRef 0, ''increment'', VRef 4)]"
  let ?h1 = "increment_example
           @ [(increment_example ! 1)\<lparr>slots := [(''parameter'', VRef 0)]\<rparr>, boxed (VNum 6),
              (increment_example ! 1)\<lparr>slots := [(''parameter'', VRef 3)]\<rparr>, boxed (VNum 7)]"
  let ?h2 = "increment_example
           @ [(increment_example ! 1)\<lparr>slots := [(''parameter'', VRef 0)]\<rparr>,
              (increment_example ! 1)\<lparr>slots := [(''parameter'', VRef 0)]\<rparr>, boxed (VNum 6),
              (increment_example ! 1)\<lparr>slots := [(''parameter'', VRef 4)]\<rparr>,
              (increment_example ! 1)\<lparr>slots := [(''parameter'', VRef 4)]\<rparr>, boxed (VNum 7)]"
  let ?bound = "(inherited_increment ! 1)\<lparr>slots := [(''parameter'', VRef 0)]\<rparr>"
  have a: "sendAMessageWithParameters 2 Rev1 example_natives increment_example (VRef 0) ''increment'' (VRef 0)
       = Some ?o1" by code_simp
  have b: "sendAMessageWithParameters_p 2 example_natives increment_example (VRef 0) ''increment'' (VRef 0)
       = Some ?o2" by code_simp
  have c: "calls_in_sequence (sendAMessageWithParameters 2 Rev1 example_natives) increment_example ?c1
       = Some ?h1" by code_simp
  have d: "calls_in_sequence (sendAMessageWithParameters_p 2 example_natives) increment_example ?c2
       = Some ?h2" by code_simp
  have e: "slot_get (increment_example ! 1) ''parameter'' = VUndefined" by code_simp
  have "take (length increment_example) (heap_of ?o1) = increment_example"
    using parameter_bound_in_copy [where h = increment_example and this = "VRef 0"
        and name = "''increment''" and n = 2 and rv = Rev1 and natives = example_natives
        and paramObj = "VRef 0" and out = ?o1] a by blast
  moreover have "take (length increment_example) (heap_of ?o2) = increment_example"
    using parameter_bound_in_copy [where h = increment_example and this = "VRef 0"
        and name = "''increment''" and n = 2 and natives = example_natives
        and paramObj = "VRef 0" and out = ?o2] b by blast
  moreover have "take (length increment_example) ?h1 = increment_example"
    using parameter_bound_in_copy [where h = increment_example and n = 2 and rv = Rev1
        and natives = example_natives and calls = ?c1 and h' = ?h1] c
    by blast
  moreover have "take (length increment_example) ?h2 = increment_example"
    using parameter_bound_in_copy [where h = increment_example and n = 2
        and natives = example_natives and calls = ?c2 and h' = ?h2] d
    by blast
  moreover have f: "sendAMessageWithParameters 2 Rev1 example_natives inherited_increment (VRef 2)
        ''increment'' (VRef 0)
       = evaluate 2 Rev1 example_natives (inherited_increment @ [?bound]) (VRef 3)"
  proof -
    have 1: "deref inherited_increment (VRef 2) = Some (inherited_increment ! 2)" by code_simp
    have 2: "\<not> truthy (slot_get (inherited_increment ! 2) ''increment'')" by code_simp
    have 3: "bfs inherited_increment ''increment'' []
        (map (slot_get (inherited_increment ! 2)) (parents (inherited_increment ! 2)))
        = Inr (Some (VRef 1), [VRef 0])" by code_simp
    have 4: "deref inherited_increment (VRef 1) = Some (inherited_increment ! 1)" by code_simp
    have 5: "put_slot (copy_fields (inherited_increment ! 1)) ''parameter'' (VRef 0) = ?bound"
      by code_simp
    have 6: "length inherited_increment = 3" by code_simp
    from parameter_bound_in_copy [where h = inherited_increment and this = "VRef 2"
        and ob = "inherited_increment ! 2" and name = "''increment''"
        and sob = "inherited_increment ! 1" and n = 2 and rv = Rev1 and natives = example_natives
        and paramObj = "VRef 0" and slot = "VRef 1" and visited = "[VRef 0]"]
      1 2 3 4
    have "sendAMessageWithParameters 2 Rev1 example_natives inherited_increment (VRef 2)
        ''increment'' (VRef 0)
       = evaluate 2 Rev1 example_natives
           (inherited_increment @ [put_slot (copy_fields (inherited_increment ! 1)) ''parameter'' (VRef 0)])
           (VRef (length inherited_increment))"
      by blast
    then show ?thesis by (simp only: 5 6)
  qed
  moreover have g: "sendAMessageWithParameters_p 3 example_natives inherited_increment (VRef 2)
        ''increment'' (VRef 0)
       = Some (Inr (VRef 5, inherited_increment @ [?bound, ?bound, boxed (VNum 6)]))"
  proof -
    have 1: "deref inherited_increment (VRef 2) = Some (inherited_increment ! 2)" by code_simp
    have 2: "\<not> truthy (slot_get (inherited_increment ! 2) ''increment'')" by code_simp
    have 3: "parents (inherited_increment ! 2) = [] @ ''proto'' # []" by code_simp
    have 4: "list_all (\<lambda>q. passed_over (Suc 1) example_natives inherited_increment ''increment''
                 (VRef 0) (slot_get (inherited_increment ! 2) q)) []" by simp
    have 5: "deref inherited_increment (slot_get (inherited_increment ! 2) ''proto'')
        = Some (inherited_increment ! 0)" by code_simp
    have 6: "truthy (slot_get (inherited_increment ! 0) ''increment'')" by code_simp
    have 7: "deref inherited_increment (slot_get (inherited_increment ! 0) ''increment'')
        = Some (inherited_increment ! 1)" by code_simp
    have 8: "evaluate_p 1 example_natives
        (inherited_increment @ [put_slot (copy_fields (inherited_increment ! 1)) ''parameter'' (VRef 0)])
        (VRef (length inherited_increment))
        = Some (Inr (VRef 5, inherited_increment @ [?bound, ?bound, boxed (VNum 6)]))" by code_simp
    have 9: "Suc (Suc 1) = 3" by simp
    from parameter_bound_in_copy [where h = inherited_increment and this = "VRef 2"
        and ob = "inherited_increment ! 2" and name = "''increment''"
        and sob = "inherited_increment ! 1" and n = 1 and natives = example_natives
        and paramObj = "VRef 0" and earlier = "[]" and pn = "''proto''" and later = "[]"
        and pob = "inherited_increment ! 0"]
      1 2 3 4 5 6 7
    have "sendAMessageWithParameters_p (Suc (Suc 1)) example_natives inherited_increment (VRef 2)
        ''increment'' (VRef 0) =
        (case evaluate_p 1 example_natives
                (inherited_increment @ [put_slot (copy_fields (inherited_increment ! 1)) ''parameter'' (VRef 0)])
                (VRef (length inherited_increment)) of
           None \<Rightarrow> None
         | Some (Inl e) \<Rightarrow> Some (Inl e)
         | Some (Inr (res, h')) \<Rightarrow>
             if truthy res then Some (Inr (res, h'))
             else parents_wp
                    (\<lambda>h' parent. sendAMessageWithParameters_p (Suc 1) example_natives h' parent
                        ''increment'' (VRef 0))
                    h' (inherited_increment ! 2) [])"
      by blast
    then show ?thesis unfolding 8 9 by simp
  qed
  ultimately show ?thesis using a b c d e by simp
qed

end
